theory Spec2Isabelle
  imports Main
begin

section \<open>JavaScript values, errors and the filesystem\<close>

text \<open>
  The module \<^verbatim>\<open>lib/shared/files.js\<close> is a thin layer over Node's \<^verbatim>\<open>fs\<close> and \<^verbatim>\<open>path\<close>
  modules, lodash and Bluebird. Arguments whose type the code tests at run time
  (\<^verbatim>\<open>exists\<close>, \<^verbatim>\<open>subpaths\<close>) are JavaScript values; a JavaScript string is a list of
  characters. \<open>JStringObject s\<close> is the wrapper object \<^verbatim>\<open>new String(s)\<close>. \<open>JObject tag\<close> is
  any other object that is neither an array nor a function, described by the tag that
  \<^verbatim>\<open>Object.prototype.toString\<close> reports for it (\<^verbatim>\<open>[object Object]\<close> unless the object
  sets \<^verbatim>\<open>Symbol.toStringTag\<close>); such an object has no \<^verbatim>\<open>split\<close> method and is not a path
  for \<^verbatim>\<open>fs\<close> (buffers and URL objects are not modelled). The arguments the JSDoc types
  as strings (\<^verbatim>\<open>dirname\<close>, \<^verbatim>\<open>basename\<close>, the names of a batch) are strings.
\<close>

datatype js_value =
    JUndefined
  | JNull
  | JBool bool
  | JNumber int
  | JString string
  | JStringObject string
  | JArray
  | JFunction
  | JObject string

text \<open>A thrown or rejected error object: its \<^verbatim>\<open>name\<close> and its \<^verbatim>\<open>code\<close> property
  (\<open>None\<close> when the property is undefined, as on V8's own TypeError).\<close>

datatype js_error = JsError (err_name: string) (err_code: "string option")

record stats =
  st_isDirectory :: bool
  st_size :: nat

text \<open>
  A fixed filesystem state answers every status query and directory listing with an
  error or a value. \<open>stat_of\<close> follows symbolic links, \<open>lstat_of\<close> does not.
\<close>

record filesystem =
  stat_of :: "string \<Rightarrow> js_error + stats"
  lstat_of :: "string \<Rightarrow> js_error + stats"
  readdir_of :: "string \<Rightarrow> js_error + string list"

text \<open>Blocking calls return their outcome (\<open>Inl\<close> a thrown error) together with the
  filesystem queries they performed, in order.\<close>

datatype fs_query = Stat string | Lstat string

type_synonym 'a sync = "(js_error + 'a) \<times> fs_query list"

definition invalid_arg_type :: js_error where
  "invalid_arg_type = JsError ''TypeError'' (Some ''ERR_INVALID_ARG_TYPE'')"

text \<open>\<^verbatim>\<open>fs.statSync(path)\<close>: the path argument is validated before any system call.\<close>

definition statSync :: "filesystem \<Rightarrow> js_value \<Rightarrow> stats sync" where
  "statSync fs p =
     (case p of
        JString s \<Rightarrow> (stat_of fs s, [Stat s])
      | _ \<Rightarrow> (Inl invalid_arg_type, []))"

definition lstatSync :: "filesystem \<Rightarrow> string \<Rightarrow> stats sync" where
  "lstatSync fs p = (lstat_of fs p, [Lstat p])"

section \<open>exists\<close>

text \<open>
  \<^verbatim>\<open>
  exports.exists = (fullpath) => {
    try {
      return Boolean(fs.statSync(fullpath))
    } catch (err) {
      return err.code !== 'ENOENT'
    }
  }
  \<close>
  \<^verbatim>\<open>Boolean\<close> of a Stats object is \<^verbatim>\<open>true\<close>.
\<close>

definition exists :: "js_value \<Rightarrow> filesystem \<Rightarrow> bool sync" where
  "exists fullpath fs =
     (case statSync fs fullpath of
        (Inr st, q) \<Rightarrow> (Inr True, q)
      | (Inl err, q) \<Rightarrow> (Inr (err_code err \<noteq> Some ''ENOENT''), q))"

section \<open>Node's path module, POSIX flavour\<close>

text \<open>
  \<^verbatim>\<open>path.join\<close>, \<^verbatim>\<open>path.normalize\<close> and \<^verbatim>\<open>path.parse\<close> are transcribed from the POSIX
  implementation in Node's \<^verbatim>\<open>lib/path.js\<close>; \<^verbatim>\<open>path.sep\<close> is \<^verbatim>\<open>'/'\<close>. Indices and
  counters that start at \<open>-1\<close> in the JavaScript are integers here.
\<close>

definition slice :: "string \<Rightarrow> nat \<Rightarrow> nat \<Rightarrow> string" where
  \<comment> \<open>\<^verbatim>\<open>s.slice(a, b)\<close> for \<open>0 \<le> a\<close>, \<open>0 \<le> b\<close>: empty when \<open>b \<le> a\<close>, cut at the length.\<close>
  "slice s a b = take (b - a) (drop a s)"

fun lastIndexOf :: "string \<Rightarrow> char \<Rightarrow> int" where
  "lastIndexOf [] c = -1"
| "lastIndexOf (x # xs) c =
     (let r = lastIndexOf xs c
      in if r \<noteq> -1 then r + 1 else if x = c then 0 else -1)"

record ns_state =
  res :: string
  lastSegmentLength :: int
  lastSlash :: int
  dots :: int

definition ns_init :: ns_state where
  "ns_init = \<lparr>res = [], lastSegmentLength = 0, lastSlash = -1, dots = 0\<rparr>"

text \<open>The body of the loop of \<^verbatim>\<open>normalizeString\<close> at index \<open>i\<close> with character \<open>code\<close>.\<close>

definition ns_above_root :: "bool \<Rightarrow> nat \<Rightarrow> ns_state \<Rightarrow> ns_state" where
  "ns_above_root allowAboveRoot i s =
     (if allowAboveRoot
      then s\<lparr>res := (if res s \<noteq> [] then res s @ ''/..'' else ''..''),
             lastSegmentLength := 2, lastSlash := int i, dots := 0\<rparr>
      else s\<lparr>lastSlash := int i, dots := 0\<rparr>)"

definition ns_pop :: "nat \<Rightarrow> ns_state \<Rightarrow> ns_state" where
  "ns_pop i s =
     (let lastSlashIndex = lastIndexOf (res s) CHR ''/''
      in if lastSlashIndex = -1
         then s\<lparr>res := [], lastSegmentLength := 0, lastSlash := int i, dots := 0\<rparr>
         else (let r = take (nat lastSlashIndex) (res s)
               in s\<lparr>res := r,
                     lastSegmentLength := int (length r) - 1 - lastIndexOf r CHR ''/'',
                     lastSlash := int i, dots := 0\<rparr>))"

definition ns_step :: "string \<Rightarrow> bool \<Rightarrow> nat \<Rightarrow> char \<Rightarrow> ns_state \<Rightarrow> ns_state" where
  "ns_step path allowAboveRoot i code s =
     (if code = CHR ''/'' then
        (if lastSlash s = int i - 1 \<or> dots s = 1 then s\<lparr>lastSlash := int i, dots := 0\<rparr>
         else if dots s = 2 then
           (if length (res s) < 2 \<or> lastSegmentLength s \<noteq> 2 \<or>
               res s ! (length (res s) - 1) \<noteq> CHR ''.'' \<or>
               res s ! (length (res s) - 2) \<noteq> CHR ''.''
            then
              (if length (res s) > 2 then ns_pop i s
               else if length (res s) \<noteq> 0
               then s\<lparr>res := [], lastSegmentLength := 0, lastSlash := int i, dots := 0\<rparr>
               else ns_above_root allowAboveRoot i s)
            else ns_above_root allowAboveRoot i s)
         else
           s\<lparr>res := (if res s \<noteq> []
                     then res s @ ''/'' @ slice path (nat (lastSlash s + 1)) i
                     else slice path (nat (lastSlash s + 1)) i),
             lastSegmentLength := int i - lastSlash s - 1,
             lastSlash := int i, dots := 0\<rparr>)
      else if code = CHR ''.'' \<and> dots s \<noteq> -1 then s\<lparr>dots := dots s + 1\<rparr>
      else s\<lparr>dots := -1\<rparr>)"

text \<open>
  The loop runs over \<open>i = 0, \<dots>, length path\<close>; at \<open>i = length path\<close> it stops when the
  last character read was a separator and otherwise runs the body once more with a
  separator.
\<close>

definition ns_run :: "string \<Rightarrow> bool \<Rightarrow> nat \<Rightarrow> ns_state" where
  \<comment> \<open>the state after the iterations \<open>i = 0, \<dots>, k - 1\<close>\<close>
  "ns_run path allowAboveRoot k =
     foldl (\<lambda>s i. ns_step path allowAboveRoot i (path ! i) s) ns_init [0..<k]"

definition normalizeString :: "string \<Rightarrow> bool \<Rightarrow> string" where
  "normalizeString path allowAboveRoot =
     (let s = ns_run path allowAboveRoot (length path)
      in if path \<noteq> [] \<and> last path = CHR ''/'' then res s
         else res (ns_step path allowAboveRoot (length path) CHR ''/'' s))"

definition path_normalize :: "string \<Rightarrow> string" where
  "path_normalize path =
     (if path = [] then ''.''
      else
        (let isAbsolute = (hd path = CHR ''/'');
             trailingSeparator = (last path = CHR ''/'');
             p = normalizeString path (\<not> isAbsolute)
         in if p = [] then
              (if isAbsolute then ''/'' else if trailingSeparator then ''./'' else ''.'')
            else
              (let p' = (if trailingSeparator then p @ ''/'' else p)
               in if isAbsolute then ''/'' @ p' else p')))"

text \<open>\<^verbatim>\<open>path.join(...args)\<close>: the non-empty arguments joined by \<^verbatim>\<open>'/'\<close>, then normalized.\<close>

definition join_args :: "string list \<Rightarrow> string option" where
  "join_args args =
     foldl (\<lambda>joined arg.
              if arg \<noteq> []
              then (case joined of None \<Rightarrow> Some arg | Some j \<Rightarrow> Some (j @ ''/'' @ arg))
              else joined)
       None args"

definition path_join :: "string list \<Rightarrow> string" where
  "path_join args =
     (case join_args args of None \<Rightarrow> ''.'' | Some joined \<Rightarrow> path_normalize joined)"

record path_object =
  p_root :: string
  p_dir :: string
  p_base :: string
  p_ext :: string
  p_name :: string

record parse_state =
  startDot :: int
  startPart :: nat
  end_idx :: int
  matchedSlash :: bool
  preDotState :: int

definition parse_init :: parse_state where
  "parse_init = \<lparr>startDot = -1, startPart = 0, end_idx = -1, matchedSlash = True,
                  preDotState = 0\<rparr>"

text \<open>
  The loop of \<^verbatim>\<open>path.parse\<close>, \<^verbatim>\<open>for (; i >= start; --i)\<close>. \<open>parse_char\<close> is its body
  for a character that is not a separator; the third argument of \<open>parse_loop\<close> is
  \<open>i + 1\<close>.
\<close>

definition parse_char :: "nat \<Rightarrow> char \<Rightarrow> parse_state \<Rightarrow> parse_state" where
  "parse_char i code s =
     (let s1 = (if end_idx s = -1 then s\<lparr>matchedSlash := False, end_idx := int i + 1\<rparr>
                else s)
      in if code = CHR ''.'' then
           (if startDot s1 = -1 then s1\<lparr>startDot := int i\<rparr>
            else if preDotState s1 \<noteq> 1 then s1\<lparr>preDotState := 1\<rparr>
            else s1)
         else if startDot s1 \<noteq> -1 then s1\<lparr>preDotState := -1\<rparr>
         else s1)"

fun parse_loop :: "string \<Rightarrow> nat \<Rightarrow> nat \<Rightarrow> parse_state \<Rightarrow> parse_state" where
  "parse_loop path start 0 s = s"
| "parse_loop path start (Suc i) s =
     (if i < start then s
      else if path ! i = CHR ''/'' then
        (if \<not> matchedSlash s then s\<lparr>startPart := i + 1\<rparr>
         else parse_loop path start i s)
      else parse_loop path start i (parse_char i (path ! i) s))"

definition path_parse :: "string \<Rightarrow> path_object" where
  "path_parse path =
     (if path = [] then \<lparr>p_root = [], p_dir = [], p_base = [], p_ext = [], p_name = []\<rparr>
      else
        (let isAbsolute = (hd path = CHR ''/'');
             start = (if isAbsolute then 1 else 0);
             s = parse_loop path start (length path) parse_init;
             st = (if startPart s = 0 \<and> isAbsolute then 1 else startPart s);
             noExt = (startDot s = -1 \<or> preDotState s = 0 \<or>
                      (preDotState s = 1 \<and> startDot s = end_idx s - 1 \<and>
                       startDot s = int (startPart s) + 1))
         in \<lparr>p_root = (if isAbsolute then ''/'' else []),
             p_dir = (if startPart s > 0 then slice path 0 (startPart s - 1)
                      else if isAbsolute then ''/'' else []),
             p_base = (if end_idx s \<noteq> -1 then slice path st (nat (end_idx s)) else []),
             p_ext = (if end_idx s \<noteq> -1 \<and> \<not> noExt
                      then slice path (nat (startDot s)) (nat (end_idx s)) else []),
             p_name = (if end_idx s \<noteq> -1
                       then (if noExt then slice path st (nat (end_idx s))
                             else slice path st (nat (startDot s)))
                       else [])\<rparr>))"

section \<open>The metadata builder\<close>

record file_metadata =
  basename :: string
  dirname :: string
  fullpath :: string
  extension :: string
  name :: string
  isDirectory :: bool
  isHidden :: bool
  size_bytes :: nat

definition startsWith_dot :: "string \<Rightarrow> bool" where
  \<comment> \<open>\<^verbatim>\<open>s.startsWith('.')\<close>\<close>
  "startsWith_dot s = (case s of [] \<Rightarrow> False | c # _ \<Rightarrow> c = CHR ''.'')"

definition replace_dot :: "string \<Rightarrow> string" where
  \<comment> \<open>\<^verbatim>\<open>s.replace('.', '')\<close>: a string pattern replaces its first occurrence only.\<close>
  "replace_dot s = remove1 CHR ''.'' s"

text \<open>
  \<^verbatim>\<open>
  exports.getFileMetadataSync = (dirname, basename = '') => {
    const fullpath = path.join(dirname, basename)
    const pathObj = path.parse(fullpath)
    const isHidden = pathObj.base.startsWith('.')
    const stats = fs.lstatSync(fullpath)
    return { ... }
  }
  \<close>
\<close>

definition getFileMetadataSync :: "string \<Rightarrow> string \<Rightarrow> filesystem \<Rightarrow> file_metadata sync" where
  "getFileMetadataSync dir base fs =
     (let fullpath' = path_join [dir, base];
          pathObj = path_parse fullpath';
          isHidden' = startsWith_dot (p_base pathObj)
      in case lstatSync fs fullpath' of
           (Inl err, q) \<Rightarrow> (Inl err, q)
         | (Inr stats, q) \<Rightarrow>
             (Inr \<lparr>basename = p_base pathObj,
                   dirname = p_dir pathObj,
                   fullpath = fullpath',
                   extension = replace_dot (p_ext pathObj),
                   name = p_name pathObj,
                   isDirectory = st_isDirectory stats,
                   isHidden = isHidden',
                   size_bytes = st_size stats\<rparr>, q))"

subsection \<open>Promises\<close>

text \<open>
  A promise is described by how it ends in the fixed filesystem state: fulfilled with a
  value, rejected with an error, or never settled.
\<close>

datatype 'a promise = Fulfilled 'a | Rejected js_error | Pending

definition lstatAsync :: "filesystem \<Rightarrow> string \<Rightarrow> stats promise" where
  "lstatAsync fs p = (case lstat_of fs p of Inl err \<Rightarrow> Rejected err | Inr st \<Rightarrow> Fulfilled st)"

definition readdirAsync :: "filesystem \<Rightarrow> string \<Rightarrow> string list promise" where
  "readdirAsync fs p =
     (case readdir_of fs p of Inl err \<Rightarrow> Rejected err | Inr names \<Rightarrow> Fulfilled names)"

text \<open>\<^verbatim>\<open>p.then(f)\<close> for a handler returning a plain value, and for one returning a
  promise (which the result then follows).\<close>

definition then_value :: "'a promise \<Rightarrow> ('a \<Rightarrow> 'b) \<Rightarrow> 'b promise" where
  "then_value p f =
     (case p of Fulfilled v \<Rightarrow> Fulfilled (f v) | Rejected err \<Rightarrow> Rejected err
      | Pending \<Rightarrow> Pending)"

definition then_promise :: "'a promise \<Rightarrow> ('a \<Rightarrow> 'b promise) \<Rightarrow> 'b promise" where
  "then_promise p f =
     (case p of Fulfilled v \<Rightarrow> f v | Rejected err \<Rightarrow> Rejected err | Pending \<Rightarrow> Pending)"

text \<open>
  \<^verbatim>\<open>
  exports.getFileMetadataAsync = (dirname, basename = '') => {
    const fullpath = path.join(dirname, basename)
    const pathObj = path.parse(fullpath)
    const isHidden = pathObj.base.startsWith('.')
    return fs.lstatAsync(fullpath).then((stats) => {
      return { ... }
    })
  }
  \<close>
\<close>

definition getFileMetadataAsync ::
  "string \<Rightarrow> string \<Rightarrow> filesystem \<Rightarrow> file_metadata promise" where
  "getFileMetadataAsync dir base fs =
     (let fullpath' = path_join [dir, base];
          pathObj = path_parse fullpath';
          isHidden' = startsWith_dot (p_base pathObj)
      in then_value (lstatAsync fs fullpath')
           (\<lambda>stats.
              \<lparr>basename = p_base pathObj,
               dirname = p_dir pathObj,
               fullpath = fullpath',
               extension = replace_dot (p_ext pathObj),
               name = p_name pathObj,
               isDirectory = st_isDirectory stats,
               isHidden = isHidden',
               size_bytes = st_size stats\<rparr>))"

section \<open>Batch lookup\<close>

text \<open>
  \<^verbatim>\<open>Bluebird.map(items, mapper)\<close> calls the mapper on every item in input order. A
  mapper that throws rejects the result at once. Otherwise the promises the mapper
  returned settle in some order \<open>ord\<close> (a list of indices, one per completion): a
  fulfilment stores its value in the slot of its index, the result is fulfilled with
  the slots once every slot is filled, and the first rejection rejects the result.
\<close>

fun call_all :: "('a \<Rightarrow> js_error + 'b promise) \<Rightarrow> 'a list \<Rightarrow> js_error + 'b promise list" where
  "call_all mapper [] = Inr []"
| "call_all mapper (x # xs) =
     (case mapper x of
        Inl err \<Rightarrow> Inl err
      | Inr p \<Rightarrow> (case call_all mapper xs of Inl err \<Rightarrow> Inl err | Inr ps \<Rightarrow> Inr (p # ps)))"

definition all_filled :: "'b option list \<Rightarrow> bool" where
  "all_filled slots = list_all (\<lambda>v. v \<noteq> None) slots"

fun collect :: "'b promise list \<Rightarrow> nat list \<Rightarrow> 'b option list \<Rightarrow> 'b list promise" where
  "collect ps [] slots = (if all_filled slots then Fulfilled (map the slots) else Pending)"
| "collect ps (i # ord) slots =
     (if all_filled slots then Fulfilled (map the slots)
      else if length ps \<le> i then collect ps ord slots
      else (case ps ! i of
              Fulfilled v \<Rightarrow> collect ps ord (slots[i := Some v])
            | Rejected err \<Rightarrow> Rejected err
            | Pending \<Rightarrow> collect ps ord slots))"

definition Bluebird_map ::
  "'a list \<Rightarrow> ('a \<Rightarrow> js_error + 'b promise) \<Rightarrow> nat list \<Rightarrow> 'b list promise" where
  "Bluebird_map items mapper ord =
     (case call_all mapper items of
        Inl err \<Rightarrow> Rejected err
      | Inr ps \<Rightarrow> collect ps ord (replicate (length ps) None))"

text \<open>
  \<^verbatim>\<open>
  exports.getAllFilesMetadataAsync = (dirname, basenames) => {
    return Bluebird.map(basenames, (basename) => {
      return exports.getFileMetadataAsync(dirname, basename)
    })
  }
  \<close>
\<close>

definition getAllFilesMetadataAsync ::
  "string \<Rightarrow> string list \<Rightarrow> filesystem \<Rightarrow> nat list \<Rightarrow> file_metadata list promise" where
  "getAllFilesMetadataAsync dir basenames fs ord =
     Bluebird_map basenames (\<lambda>base. Inr (getFileMetadataAsync dir base fs)) ord"

section \<open>Directory listing\<close>

text \<open>
  The properties the module assigns on \<^verbatim>\<open>exports\<close> are \<^verbatim>\<open>exists\<close>,
  \<^verbatim>\<open>getFileMetadataSync\<close>, \<^verbatim>\<open>getFileMetadataAsync\<close>, \<^verbatim>\<open>getAllFilesMetadataAsync\<close>,
  \<^verbatim>\<open>getDirectoryContents\<close>, \<^verbatim>\<open>getDirectory\<close> and \<^verbatim>\<open>subpaths\<close>. The table below holds
  the ones that take a directory and a base name and produce metadata, a returned
  record being a value the caller may treat as a fulfilled promise.
\<close>

definition exports_names :: "string list" where
  "exports_names =
     [''exists'', ''getFileMetadataSync'', ''getFileMetadataAsync'',
      ''getAllFilesMetadataAsync'', ''getDirectoryContents'', ''getDirectory'',
      ''subpaths'']"

type_synonym metadata_builder =
  "string \<Rightarrow> string \<Rightarrow> filesystem \<Rightarrow> js_error + file_metadata promise"

definition exports_builders :: "(string \<times> metadata_builder) list" where
  "exports_builders =
     [(''getFileMetadataSync'',
         \<lambda>dir base fs. (case fst (getFileMetadataSync dir base fs) of
                          Inl err \<Rightarrow> Inl err | Inr m \<Rightarrow> Inr (Fulfilled m))),
      (''getFileMetadataAsync'',
         \<lambda>dir base fs. Inr (getFileMetadataAsync dir base fs))]"

definition not_a_function :: js_error where
  \<comment> \<open>calling a property that is \<^verbatim>\<open>undefined\<close>\<close>
  "not_a_function = JsError ''TypeError'' None"

definition call_export :: "string \<Rightarrow> metadata_builder" where
  "call_export prop dir base fs =
     (case map_of exports_builders prop of
        None \<Rightarrow> Inl not_a_function
      | Some f \<Rightarrow> f dir base fs)"

text \<open>
  \<^verbatim>\<open>
  exports.getDirectoryContents = (dirname) => {
    return fs.readdirAsync(dirname).then((contents) => {
      return Bluebird.map(contents, (basename) => {
        return exports.getFileMetadata(dirname, basename)
      })
    })
  }

  exports.getDirectory = (dirname) => {
    return fs.readdirAsync(dirname)
  }
  \<close>
\<close>

definition getDirectoryContents ::
  "string \<Rightarrow> filesystem \<Rightarrow> nat list \<Rightarrow> file_metadata list promise" where
  "getDirectoryContents dir fs ord =
     then_promise (readdirAsync fs dir)
       (\<lambda>contents.
          Bluebird_map contents (\<lambda>base. call_export ''getFileMetadata'' dir base fs) ord)"

definition getDirectory :: "string \<Rightarrow> filesystem \<Rightarrow> string list promise" where
  "getDirectory dir fs = readdirAsync fs dir"

section \<open>Ancestor subpaths\<close>

fun split_sep :: "string \<Rightarrow> string list" where
  \<comment> \<open>\<^verbatim>\<open>s.split(path.sep)\<close>\<close>
  "split_sep [] = [[]]"
| "split_sep (c # cs) =
     (if c = CHR ''/'' then [] # split_sep cs
      else (case split_sep cs of [] \<Rightarrow> [[c]] | w # ws \<Rightarrow> (c # w) # ws))"

text \<open>
  The guard is lodash's \<^verbatim>\<open>_.isString\<close>:
  \<^verbatim>\<open>
  function isString(value) {
    return typeof value == 'string' ||
      (!isArray(value) && isObjectLike(value) && baseGetTag(value) == stringTag);
  }
  \<close>
  It accepts string primitives, \<^verbatim>\<open>String\<close> wrapper objects and every other object
  whose tag is \<^verbatim>\<open>[object String]\<close>.
\<close>

definition typeof_string :: "js_value \<Rightarrow> bool" where
  \<comment> \<open>\<^verbatim>\<open>typeof value == 'string'\<close>\<close>
  "typeof_string v = (case v of JString _ \<Rightarrow> True | _ \<Rightarrow> False)"

definition isArray :: "js_value \<Rightarrow> bool" where
  "isArray v = (case v of JArray \<Rightarrow> True | _ \<Rightarrow> False)"

definition isObjectLike :: "js_value \<Rightarrow> bool" where
  \<comment> \<open>\<^verbatim>\<open>value != null && typeof value == 'object'\<close>\<close>
  "isObjectLike v =
     (case v of JStringObject _ \<Rightarrow> True | JArray \<Rightarrow> True | JObject _ \<Rightarrow> True | _ \<Rightarrow> False)"

definition baseGetTag :: "js_value \<Rightarrow> string" where
  "baseGetTag v =
     (case v of
        JUndefined \<Rightarrow> ''[object Undefined]''
      | JNull \<Rightarrow> ''[object Null]''
      | JBool _ \<Rightarrow> ''[object Boolean]''
      | JNumber _ \<Rightarrow> ''[object Number]''
      | JString _ \<Rightarrow> ''[object String]''
      | JStringObject _ \<Rightarrow> ''[object String]''
      | JArray \<Rightarrow> ''[object Array]''
      | JFunction \<Rightarrow> ''[object Function]''
      | JObject tag \<Rightarrow> tag)"

definition isString :: "js_value \<Rightarrow> bool" where
  "isString v =
     (typeof_string v \<or>
      (\<not> isArray v \<and> isObjectLike v \<and> baseGetTag v = ''[object String]''))"

text \<open>
  \<^verbatim>\<open>fullpath.split(path.sep)\<close> on a value: a string and a \<^verbatim>\<open>String\<close> wrapper split their
  characters; on any other value the call throws a TypeError (no such method, or no
  properties at all).
\<close>

definition split_call :: "js_value \<Rightarrow> js_error + string list" where
  "split_call v =
     (case v of
        JString s \<Rightarrow> Inr (split_sep s)
      | JStringObject s \<Rightarrow> Inr (split_sep s)
      | _ \<Rightarrow> Inl not_a_function)"

definition update_root :: "string list \<Rightarrow> string list" where
  \<comment> \<open>\<^verbatim>\<open>_.update(parts, ['0'], (root) => root || '/')\<close>; an absent element is \<^verbatim>\<open>undefined\<close>\<close>
  "update_root parts =
     (case parts of
        [] \<Rightarrow> [''/'']
      | root # rest \<Rightarrow> (if root \<noteq> [] then root else ''/'') # rest)"

definition compact :: "string list \<Rightarrow> string list" where
  \<comment> \<open>\<^verbatim>\<open>_.compact\<close>: the empty string is the only falsy string\<close>
  "compact parts = filter (\<lambda>part. part \<noteq> []) parts"

fun map_sync :: "('a \<Rightarrow> 'b sync) \<Rightarrow> 'a list \<Rightarrow> 'b list sync" where
  "map_sync f [] = (Inr [], [])"
| "map_sync f (x # xs) =
     (case f x of
        (Inl err, q) \<Rightarrow> (Inl err, q)
      | (Inr y, q) \<Rightarrow>
          (case map_sync f xs of
             (Inl err, q') \<Rightarrow> (Inl err, q @ q')
           | (Inr ys, q') \<Rightarrow> (Inr (y # ys), q @ q')))"

text \<open>
  \<^verbatim>\<open>
  exports.subpaths = (fullpath) => {
    if (!_.isString(fullpath)) {
      return null
    }
    const dirs = _.compact(_.update(fullpath.split(path.sep), [ '0' ], (root) => {
      return root || '/'
    }))
    return _.map(dirs, (dir, index) => {
      const subdir = dirs.slice(0, index + 1)
      return exports.getFileMetadataSync(path.join(...subdir))
    })
  }
  \<close>
  \<open>None\<close> is \<^verbatim>\<open>null\<close>.
\<close>

definition subpaths :: "js_value \<Rightarrow> filesystem \<Rightarrow> file_metadata list option sync" where
  "subpaths v fs =
     (if \<not> isString v then (Inr None, [])
      else
        (case split_call v of
           Inl err \<Rightarrow> (Inl err, [])
         | Inr parts \<Rightarrow>
             (let dirs = compact (update_root parts)
              in case map_sync
                        (\<lambda>index. getFileMetadataSync (path_join (take (index + 1) dirs)) [] fs)
                        [0..<length dirs] of
                   (Inl err, q) \<Rightarrow> (Inl err, q)
                 | (Inr ms, q) \<Rightarrow> (Inr (Some ms), q))))"

section \<open>A filesystem for examples\<close>

text \<open>
  The directory \<^verbatim>\<open>/tmp/x\<close> lists the file \<^verbatim>\<open>notes.txt\<close> (3 bytes), the empty
  directory \<^verbatim>\<open>sub\<close>, the dotfile \<^verbatim>\<open>.gitignore\<close> and the directory \<^verbatim>\<open>.config\<close>; the
  status of \<^verbatim>\<open>/tmp/x/locked\<close> cannot be read. The directory \<^verbatim>\<open>/tmp/y\<close> lists a name
  \<^verbatim>\<open>gone\<close> that no longer exists. \<^verbatim>\<open>/a\<close>, \<^verbatim>\<open>/a/b\<close> and \<^verbatim>\<open>/a/b/c\<close> are directories.
  Every other path is absent.
\<close>

definition enoent :: js_error where
  "enoent = JsError ''Error'' (Some ''ENOENT'')"

definition eacces :: js_error where
  "eacces = JsError ''Error'' (Some ''EACCES'')"

definition dir_stats :: stats where
  "dir_stats = \<lparr>st_isDirectory = True, st_size = 4096\<rparr>"

definition example_status :: "string \<Rightarrow> js_error + stats" where
  "example_status p =
     (if p \<in> set [''/'', ''/tmp'', ''/tmp/x'', ''/tmp/x/sub'', ''/tmp/x/.config'', ''/tmp/y'',
                   ''/a'', ''/a/b'', ''/a/b/c'']
      then Inr dir_stats
      else if p = ''/tmp/x/notes.txt'' then Inr \<lparr>st_isDirectory = False, st_size = 3\<rparr>
      else if p = ''/tmp/x/.gitignore'' then Inr \<lparr>st_isDirectory = False, st_size = 12\<rparr>
      else if p = ''/tmp/x/locked'' then Inl eacces
      else Inl enoent)"

definition example_fs :: filesystem where
  "example_fs =
     \<lparr>stat_of = example_status,
      lstat_of = example_status,
      readdir_of =
        (\<lambda>p. if p = ''/tmp/x'' then Inr [''notes.txt'', ''sub'', ''.gitignore'', ''.config'']
              else if p = ''/tmp/x/sub'' then Inr []
              else if p = ''/tmp/y'' then Inr [''gone'']
              else Inl enoent)\<rparr>"

section \<open>Auxiliary notions for the statements\<close>

text \<open>The record both forms of the builder produce for a status \<open>st\<close>.\<close>

definition build_metadata :: "string \<Rightarrow> string \<Rightarrow> stats \<Rightarrow> file_metadata" where
  "build_metadata dir base st =
     \<lparr>basename = p_base (path_parse (path_join [dir, base])),
      dirname = p_dir (path_parse (path_join [dir, base])),
      fullpath = path_join [dir, base],
      extension = replace_dot (p_ext (path_parse (path_join [dir, base]))),
      name = p_name (path_parse (path_join [dir, base])),
      isDirectory = st_isDirectory st,
      isHidden = startsWith_dot (p_base (path_parse (path_join [dir, base]))),
      size_bytes = st_size st\<rparr>"

definition is_rejected :: "'a promise \<Rightarrow> bool" where
  "is_rejected p = (case p of Rejected _ \<Rightarrow> True | _ \<Rightarrow> False)"

text \<open>
  A single path component: a non-empty name that contains no separator and is neither
  \<^verbatim>\<open>.\<close> nor \<^verbatim>\<open>..\<close>; a directory listing returns such names.
\<close>

definition is_component :: "string \<Rightarrow> bool" where
  "is_component n = (n \<noteq> [] \<and> CHR ''/'' \<notin> set n \<and> n \<noteq> ''.'' \<and> n \<noteq> ''..'')"

text \<open>The substring after the last \<^verbatim>\<open>.\<close> of a name.\<close>

definition after_last_dot :: "string \<Rightarrow> string" where
  "after_last_dot n = rev (takeWhile (\<lambda>c. c \<noteq> CHR ''.'') (rev n))"

text \<open>
  Specification-level descriptions of the two loops on a component: the dot counter of
  \<open>normalizeString\<close> after reading the component, the result joined so far, and the state
  of the loop of \<open>path.parse\<close> after scanning a trailing component that starts at
  offset \<open>off\<close>.
\<close>

definition seg_dots :: "string \<Rightarrow> int" where
  "seg_dots n = (if list_all (\<lambda>c. c = CHR ''.'') n then int (length n) else -1)"

definition seg_join :: "string \<Rightarrow> string \<Rightarrow> string" where
  "seg_join r n = (if r \<noteq> [] then r @ ''/'' @ n else n)"

definition ns_res :: "string \<Rightarrow> bool \<Rightarrow> string" where
  "ns_res p a = res (ns_run p a (length p))"

fun seg_scan :: "nat \<Rightarrow> string \<Rightarrow> parse_state \<Rightarrow> parse_state" where
  "seg_scan off [] s = s"
| "seg_scan off (c # cs) s = parse_char off c (seg_scan (Suc off) cs s)"

definition seg_state :: "nat \<Rightarrow> string \<Rightarrow> parse_state" where
  "seg_state off n =
     \<lparr>startDot = (if CHR ''.'' \<in> set n then int off + lastIndexOf n CHR ''.'' else - 1),
      startPart = 0,
      end_idx = int off + int (length n),
      matchedSlash = False,
      preDotState = (if lastIndexOf n CHR ''.'' \<le> 0 then 0
                     else if hd n = CHR ''.'' then 1 else - 1)\<rparr>"

text \<open>The components of an absolute path joined by single separators below the root.\<close>

fun slash_join :: "string list \<Rightarrow> string" where
  "slash_join [] = []"
| "slash_join [c] = c"
| "slash_join (c # d # cs) = c @ ''/'' @ slash_join (d # cs)"

definition abs_path :: "string list \<Rightarrow> string" where
  "abs_path cs = ''/'' @ slash_join cs"

section \<open>Existence check: results\<close>

text \<open>
  C2. For every input \<open>p\<close> and every filesystem, \<open>exists\<close> returns a boolean and never
  throws; the boolean is false exactly when the status query for \<open>p\<close> fails with an
  error whose code is ENOENT, hence true when the query succeeds and when it fails for
  any other reason, a non-string input included.
\<close>

theorem exists_false_iff_enoent:
  "(\<exists>b. fst (exists p fs) = Inr b) \<and>
   (fst (exists p fs) = Inr False) =
     (\<exists>err. fst (statSync fs p) = Inl err \<and> err_code err = Some ''ENOENT'') \<and>
   (fst (exists p fs) = Inr True) =
     ((\<exists>st. fst (statSync fs p) = Inr st) \<or>
      (\<exists>err. fst (statSync fs p) = Inl err \<and> err_code err \<noteq> Some ''ENOENT''))"
  by (cases "statSync fs p"; cases "fst (statSync fs p)") (auto simp: exists_def)

section \<open>The two forms of the metadata builder\<close>

lemma sync_ok:
  "lstat_of fs (path_join [d, b]) = Inr st \<Longrightarrow>
   getFileMetadataSync d b fs = (Inr (build_metadata d b st), [Lstat (path_join [d, b])])"
  by (simp add: getFileMetadataSync_def lstatSync_def build_metadata_def Let_def)

lemma sync_fail:
  "lstat_of fs (path_join [d, b]) = Inl err \<Longrightarrow>
   getFileMetadataSync d b fs = (Inl err, [Lstat (path_join [d, b])])"
  by (simp add: getFileMetadataSync_def lstatSync_def Let_def)

lemma async_ok:
  "lstat_of fs (path_join [d, b]) = Inr st \<Longrightarrow>
   getFileMetadataAsync d b fs = Fulfilled (build_metadata d b st)"
  by (simp add: getFileMetadataAsync_def lstatAsync_def then_value_def build_metadata_def Let_def)

lemma async_fail:
  "lstat_of fs (path_join [d, b]) = Inl err \<Longrightarrow> getFileMetadataAsync d b fs = Rejected err"
  by (simp add: getFileMetadataAsync_def lstatAsync_def then_value_def Let_def)

text \<open>
  C5. In a fixed filesystem state the blocking and the non-blocking builder agree: when
  the status query succeeds both produce the same record, and when it fails the
  blocking form throws the error the non-blocking form is rejected with.
\<close>

theorem getFileMetadata_sync_async_agree:
  "(case lstat_of fs (path_join [d, b]) of
      Inr st \<Rightarrow> \<exists>m. fst (getFileMetadataSync d b fs) = Inr m \<and>
                    getFileMetadataAsync d b fs = Fulfilled m
    | Inl err \<Rightarrow> fst (getFileMetadataSync d b fs) = Inl err \<and>
                  getFileMetadataAsync d b fs = Rejected err)"
  by (cases "lstat_of fs (path_join [d, b])")
     (simp_all add: sync_ok sync_fail async_ok async_fail)

theorem getFileMetadata_sync_async_agree_witness:
  "(\<exists>m. fst (getFileMetadataSync ''/tmp/x'' ''notes.txt'' example_fs) = Inr m \<and>
        getFileMetadataAsync ''/tmp/x'' ''notes.txt'' example_fs = Fulfilled m) \<and>
   fst (getFileMetadataSync ''/tmp/x'' ''gone'' example_fs) = Inl enoent \<and>
   getFileMetadataAsync ''/tmp/x'' ''gone'' example_fs = Rejected enoent"
proof -
  have h1: "lstat_of example_fs (path_join [''/tmp/x'', ''notes.txt'']) =
              Inr \<lparr>st_isDirectory = False, st_size = 3\<rparr>"
    by code_simp
  have h2: "lstat_of example_fs (path_join [''/tmp/x'', ''gone'']) = Inl enoent"
    by code_simp
  show ?thesis
    using
      getFileMetadata_sync_async_agree
        [where fs = example_fs and d = "''/tmp/x''" and b = "''notes.txt''"]
      getFileMetadata_sync_async_agree
        [where fs = example_fs and d = "''/tmp/x''" and b = "''gone''"]
    by (simp add: h1 h2)
qed

section \<open>Batch lookup: order and failure\<close>

lemma call_all_Inr: "call_all (\<lambda>x. Inr (f x)) xs = Inr (map f xs)"
  by (induction xs) auto

lemma filled_slots:
  assumes "length slots = length vs"
    and "\<forall>i<length vs. slots ! i = None \<or> slots ! i = Some (vs ! i)"
    and "all_filled slots"
  shows "map the slots = vs"
proof (rule nth_equalityI)
  show "length (map the slots) = length vs" using assms by simp
next
  fix i assume "i < length (map the slots)"
  then have i: "i < length slots" by simp
  with assms(3) have "slots ! i \<noteq> None"
    by (simp add: all_filled_def list_all_length)
  with assms i show "map the slots ! i = vs ! i" by auto
qed

lemma collect_all_fulfilled:
  assumes "length slots = length vs"
    and "\<forall>i<length vs. slots ! i = None \<or> slots ! i = Some (vs ! i)"
    and "\<forall>i<length vs. slots ! i = None \<longrightarrow> i \<in> set ord"
  shows "collect (map Fulfilled vs) ord slots = Fulfilled vs"
  using assms
proof (induction ord arbitrary: slots)
  case Nil
  then have "all_filled slots"
    by (auto simp: all_filled_def list_all_length)
  with Nil show ?case by (simp add: filled_slots)
next
  case (Cons i ord)
  show ?case
  proof (cases "all_filled slots")
    case True
    with Cons.prems show ?thesis by (simp add: filled_slots)
  next
    case False
    show ?thesis
    proof (cases "i < length vs")
      case True
      let ?slots = "slots[i := Some (vs ! i)]"
      have "collect (map Fulfilled vs) ord ?slots = Fulfilled vs"
      proof (rule Cons.IH)
        show "length ?slots = length vs" using Cons.prems by simp
        show "\<forall>j<length vs. ?slots ! j = None \<or> ?slots ! j = Some (vs ! j)"
        proof (intro allI impI)
          fix j assume "j < length vs"
          then show "?slots ! j = None \<or> ?slots ! j = Some (vs ! j)"
            using Cons.prems(1,2) by (cases "j = i") auto
        qed
        show "\<forall>j<length vs. ?slots ! j = None \<longrightarrow> j \<in> set ord"
        proof (intro allI impI)
          fix j assume "j < length vs" and "?slots ! j = None"
          then show "j \<in> set ord"
            using Cons.prems(1,3) by (cases "j = i") auto
        qed
      qed
      with False True show ?thesis by simp
    next
      case ge: False
      have "collect (map Fulfilled vs) ord slots = Fulfilled vs"
      proof (rule Cons.IH)
        show "length slots = length vs" using Cons.prems by simp
        show "\<forall>j<length vs. slots ! j = None \<or> slots ! j = Some (vs ! j)"
          using Cons.prems by simp
        show "\<forall>j<length vs. slots ! j = None \<longrightarrow> j \<in> set ord"
          using Cons.prems ge by auto
      qed
      with False ge show ?thesis by simp
    qed
  qed
qed

lemma collect_first_rejection:
  assumes "length slots = length ps"
    and "\<forall>i<length ps. ps ! i \<noteq> Pending"
    and "\<forall>i<length ps. slots ! i \<noteq> None \<longrightarrow> \<not> is_rejected (ps ! i)"
    and "j < length ps" and "is_rejected (ps ! j)" and "j \<in> set ord"
  shows "\<exists>i err. find (\<lambda>i. i < length ps \<and> is_rejected (ps ! i)) ord = Some i \<and>
           ps ! i = Rejected err \<and> collect ps ord slots = Rejected err"
  using assms
proof (induction ord arbitrary: slots)
  case Nil
  then show ?case by simp
next
  case (Cons i ord)
  have "slots ! j = None" using Cons.prems by auto
  then have nf: "\<not> all_filled slots"
    using Cons.prems(1,4) by (auto simp: all_filled_def list_all_length)
  show ?case
  proof (cases "i < length ps")
    case False
    then have "j \<in> set ord" using Cons.prems by auto
    from Cons.IH[OF Cons.prems(1,2,3,4,5) this] False nf show ?thesis by simp
  next
    case True
    show ?thesis
    proof (cases "ps ! i")
      case (Fulfilled v)
      then have ij: "i \<noteq> j" using Cons.prems(5) by (auto simp: is_rejected_def)
      let ?slots = "slots[i := Some v]"
      have "\<exists>k err. find (\<lambda>i. i < length ps \<and> is_rejected (ps ! i)) ord = Some k \<and>
           ps ! k = Rejected err \<and> collect ps ord ?slots = Rejected err"
      proof (rule Cons.IH)
        show "length ?slots = length ps" using Cons.prems by simp
        show "\<forall>k<length ps. ?slots ! k \<noteq> None \<longrightarrow> \<not> is_rejected (ps ! k)"
        proof (intro allI impI)
          fix k assume "k < length ps" and "?slots ! k \<noteq> None"
          then show "\<not> is_rejected (ps ! k)"
            using Cons.prems(1,3) Fulfilled by (cases "k = i") (auto simp: is_rejected_def)
        qed
        show "j \<in> set ord" using Cons.prems(6) ij by auto
      qed (use Cons.prems in auto)
      with Fulfilled True nf show ?thesis by (simp add: is_rejected_def)
    next
      case (Rejected err)
      with True nf show ?thesis by (simp add: is_rejected_def)
    next
      case Pending
      with Cons.prems(2) True show ?thesis by simp
    qed
  qed
qed

text \<open>
  C6. When every lookup succeeds, \<open>getAllFilesMetadataAsync\<close> is fulfilled with one
  record per name, in input order, whatever the order \<open>ord\<close> in which the status
  queries complete (each completes): the \<open>i\<close>-th record is the one the builder gives
  for the \<open>i\<close>-th name, and its full path is the join of the directory and that name.
\<close>

theorem getAllFilesMetadataAsync_input_order:
  assumes ok: "\<forall>b\<in>set names. \<not> isl (lstat_of fs (path_join [d, b]))"
    and cover: "set [0..<length names] \<subseteq> set ord"
  shows "\<exists>ms. getAllFilesMetadataAsync d names fs ord = Fulfilled ms \<and>
           length ms = length names \<and>
           (\<forall>i<length names.
              getFileMetadataAsync d (names ! i) fs = Fulfilled (ms ! i) \<and>
              fullpath (ms ! i) = path_join [d, names ! i])"
proof -
  define vs where
    "vs = map (\<lambda>b. build_metadata d b (projr (lstat_of fs (path_join [d, b])))) names"
  have each: "getFileMetadataAsync d b fs = Fulfilled (build_metadata d b (projr (lstat_of fs (path_join [d, b]))))"
    if "b \<in> set names" for b
  proof -
    from ok that obtain st where "lstat_of fs (path_join [d, b]) = Inr st"
      by (cases "lstat_of fs (path_join [d, b])") auto
    then show ?thesis by (simp add: async_ok)
  qed
  then have ps: "map (\<lambda>b. getFileMetadataAsync d b fs) names = map Fulfilled vs"
    by (simp add: vs_def)
  have len: "length vs = length names" by (simp add: vs_def)
  have "collect (map Fulfilled vs) ord (replicate (length vs) None) = Fulfilled vs"
  proof (rule collect_all_fulfilled)
    show "\<forall>i<length vs. replicate (length vs) None ! i = None \<longrightarrow> i \<in> set ord"
      using cover len by auto
  qed simp_all
  then have res: "getAllFilesMetadataAsync d names fs ord = Fulfilled vs"
    by (simp add: getAllFilesMetadataAsync_def Bluebird_map_def call_all_Inr ps)
  have "getFileMetadataAsync d (names ! i) fs = Fulfilled (vs ! i) \<and>
        fullpath (vs ! i) = path_join [d, names ! i]" if "i < length names" for i
    using that each [of "names ! i"] by (simp add: vs_def build_metadata_def)
  with res len show ?thesis by blast
qed

theorem getAllFilesMetadataAsync_input_order_witness:
  "\<exists>ms. getAllFilesMetadataAsync ''/tmp/x'' [''notes.txt'', ''sub''] example_fs [1, 0] = Fulfilled ms \<and>
        length ms = length [''notes.txt'', ''sub''] \<and>
        (\<forall>i<length [''notes.txt'', ''sub''].
           getFileMetadataAsync ''/tmp/x'' ([''notes.txt'', ''sub''] ! i) example_fs = Fulfilled (ms ! i) \<and>
           fullpath (ms ! i) = path_join [''/tmp/x'', [''notes.txt'', ''sub''] ! i])"
proof -
  have h1: "\<forall>b\<in>set [''notes.txt'', ''sub''].
              \<not> isl (lstat_of example_fs (path_join [''/tmp/x'', b]))"
    by code_simp
  have h2: "set [0..<length [''notes.txt'', ''sub'']] \<subseteq> set [1, 0::nat]"
    by code_simp
  show ?thesis by (rule getAllFilesMetadataAsync_input_order [OF h1 h2])
qed

text \<open>
  C7, as the code has it. When a lookup of \<open>getAllFilesMetadataAsync\<close> fails, the batch
  is rejected, for every completion order, with the error of the failing lookup that
  completes first, and is never fulfilled, so no partial list reaches the caller. When
  the failing lookup is the only one that fails, the batch is rejected with its error.
\<close>

theorem getAllFilesMetadataAsync_fails_whole:
  assumes i0: "i0 < length names"
    and fail: "lstat_of fs (path_join [d, names ! i0]) = Inl e0"
    and cover: "set [0..<length names] \<subseteq> set ord"
  shows "(\<exists>i err.
            find (\<lambda>i. i < length names \<and> isl (lstat_of fs (path_join [d, names ! i]))) ord = Some i \<and>
            lstat_of fs (path_join [d, names ! i]) = Inl err \<and>
            getAllFilesMetadataAsync d names fs ord = Rejected err) \<and>
         (\<forall>ms. getAllFilesMetadataAsync d names fs ord \<noteq> Fulfilled ms) \<and>
         ((\<forall>i\<in>set [0..<length names]. i \<noteq> i0 \<longrightarrow> \<not> isl (lstat_of fs (path_join [d, names ! i]))) \<longrightarrow>
            getAllFilesMetadataAsync d names fs ord = Rejected e0)"
proof -
  define ps where "ps = map (\<lambda>b. getFileMetadataAsync d b fs) names"
  have len: "length ps = length names" by (simp add: ps_def)
  have rej: "is_rejected (ps ! i) = isl (lstat_of fs (path_join [d, names ! i]))"
    if "i < length names" for i
    using that
    by (cases "lstat_of fs (path_join [d, names ! i])")
       (simp_all add: ps_def async_ok async_fail is_rejected_def)
  have err: "lstat_of fs (path_join [d, names ! i]) = Inl e" if "i < length names" "ps ! i = Rejected e" for i e
    using that
    by (cases "lstat_of fs (path_join [d, names ! i])")
       (simp_all add: ps_def async_ok async_fail)
  have np: "\<forall>i<length ps. ps ! i \<noteq> Pending"
  proof (intro allI impI)
    fix i assume "i < length ps"
    then show "ps ! i \<noteq> Pending"
      by (cases "lstat_of fs (path_join [d, names ! i])")
         (simp_all add: ps_def async_ok async_fail)
  qed
  have pred: "(\<lambda>i. i < length ps \<and> is_rejected (ps ! i)) =
              (\<lambda>i. i < length names \<and> isl (lstat_of fs (path_join [d, names ! i])))"
    using rej len by auto
  have "\<exists>i err. find (\<lambda>i. i < length ps \<and> is_rejected (ps ! i)) ord = Some i \<and>
           ps ! i = Rejected err \<and>
           collect ps ord (replicate (length ps) None) = Rejected err"
  proof (rule collect_first_rejection)
    show "i0 < length ps" using i0 len by simp
    show "is_rejected (ps ! i0)" using rej [OF i0] fail by simp
    show "i0 \<in> set ord" using cover i0 by auto
    show "\<forall>i<length ps. ps ! i \<noteq> Pending" by (rule np)
  qed simp_all
  then obtain i err where
    f: "find (\<lambda>i. i < length names \<and> isl (lstat_of fs (path_join [d, names ! i]))) ord = Some i"
    and pi: "ps ! i = Rejected err"
    and c: "collect ps ord (replicate (length ps) None) = Rejected err"
    unfolding pred by blast
  have res: "getAllFilesMetadataAsync d names fs ord = Rejected err"
    using c by (simp add: getAllFilesMetadataAsync_def Bluebird_map_def call_all_Inr ps_def)
  from f have ilt: "i < length names" and ifail: "isl (lstat_of fs (path_join [d, names ! i]))"
    by (auto dest: find_Some_iff [THEN iffD1])
  have ierr: "lstat_of fs (path_join [d, names ! i]) = Inl err"
    using err [OF ilt pi] .
  have single: "getAllFilesMetadataAsync d names fs ord = Rejected e0"
    if "\<forall>i\<in>set [0..<length names]. i \<noteq> i0 \<longrightarrow> \<not> isl (lstat_of fs (path_join [d, names ! i]))"
  proof -
    from that ilt ifail have "i = i0" by auto
    with ierr fail res show ?thesis by simp
  qed
  from f ierr res single show ?thesis by auto
qed

theorem getAllFilesMetadataAsync_fails_whole_witness:
  "(\<exists>i err.
      find (\<lambda>i. i < length [''notes.txt'', ''gone''] \<and>
                 isl (lstat_of example_fs (path_join [''/tmp/x'', [''notes.txt'', ''gone''] ! i])))
        [1, 0] = Some i \<and>
      lstat_of example_fs (path_join [''/tmp/x'', [''notes.txt'', ''gone''] ! i]) = Inl err \<and>
      getAllFilesMetadataAsync ''/tmp/x'' [''notes.txt'', ''gone''] example_fs [1, 0] =
        Rejected err) \<and>
   (\<forall>ms. getAllFilesMetadataAsync ''/tmp/x'' [''notes.txt'', ''gone''] example_fs [1, 0] \<noteq>
          Fulfilled ms) \<and>
   getAllFilesMetadataAsync ''/tmp/x'' [''notes.txt'', ''gone''] example_fs [1, 0] =
     Rejected enoent"
proof -
  have h1: "1 < length [''notes.txt'', ''gone'']" by simp
  have h2: "lstat_of example_fs (path_join [''/tmp/x'', [''notes.txt'', ''gone''] ! 1]) =
              Inl enoent"
    by code_simp
  have h3: "set [0..<length [''notes.txt'', ''gone'']] \<subseteq> set [1, 0::nat]"
    by code_simp
  have h4: "\<forall>i\<in>set [0..<length [''notes.txt'', ''gone'']]. i \<noteq> 1 \<longrightarrow>
              \<not> isl (lstat_of example_fs (path_join [''/tmp/x'', [''notes.txt'', ''gone''] ! i]))"
    by code_simp
  show ?thesis
    using getAllFilesMetadataAsync_fails_whole [OF h1 h2 h3] h4 by blast
qed

text \<open>
  C7 as stated fails twice. With two failing lookups the batch carries the error of
  the one that completes first, not of each; and \<open>getDirectoryContents\<close> is rejected with
  the TypeError of its undefined callee, not with the error of the entry's lookup.
\<close>

theorem batch_failure_counterexample:
  "lstat_of example_fs (path_join [''/tmp/x'', ''locked'']) = Inl eacces \<and>
   getAllFilesMetadataAsync ''/tmp/x'' [''locked'', ''gone''] example_fs [1, 0] =
     Rejected enoent \<and>
   enoent \<noteq> eacces \<and>
   readdir_of example_fs ''/tmp/y'' = Inr [''gone''] \<and>
   lstat_of example_fs (path_join [''/tmp/y'', ''gone'']) = Inl enoent \<and>
   getDirectoryContents ''/tmp/y'' example_fs [0] = Rejected not_a_function \<and>
   not_a_function \<noteq> enoent \<and> not_a_function \<noteq> eacces"
proof -
  have "lstat_of example_fs (path_join [''/tmp/x'', ''locked'']) = Inl eacces"
    by code_simp
  moreover have "getAllFilesMetadataAsync ''/tmp/x'' [''locked'', ''gone''] example_fs [1, 0] =
      Rejected enoent"
    by code_simp
  moreover have "enoent \<noteq> eacces"
    by (simp add: enoent_def eacces_def)
  moreover have "readdir_of example_fs ''/tmp/y'' = Inr [''gone'']"
    by code_simp
  moreover have "lstat_of example_fs (path_join [''/tmp/y'', ''gone'']) = Inl enoent"
    by code_simp
  moreover have "getDirectoryContents ''/tmp/y'' example_fs [0] = Rejected not_a_function"
    by code_simp
  moreover have "not_a_function \<noteq> enoent \<and> not_a_function \<noteq> eacces"
    by (simp add: enoent_def eacces_def not_a_function_def)
  ultimately show ?thesis by simp
qed

section \<open>Directory listing: the undefined callee\<close>

lemma call_all_throw:
  "xs \<noteq> [] \<Longrightarrow> call_all (\<lambda>x. Inl err) xs = (Inl err :: js_error + 'b promise list)"
  by (cases xs) simp_all

lemma getFileMetadata_undefined: "map_of exports_builders ''getFileMetadata'' = None"
  by (simp add: exports_builders_def)

text \<open>
  C10. \<open>getDirectoryContents\<close> calls the property \<^verbatim>\<open>getFileMetadata\<close> of \<^verbatim>\<open>exports\<close>, which
  the module never assigns. So for a readable directory with at least one entry the
  result is rejected with a TypeError, whatever the status of the entries and the
  completion order, and for an empty readable directory it is fulfilled with the empty
  list.
\<close>

theorem getDirectoryContents_undefined_export:
  "map_of exports_builders ''getFileMetadata'' = None \<and>
   ''getFileMetadata'' \<notin> set exports_names \<and>
   (readdir_of fs d = Inr contents \<longrightarrow>
      getDirectoryContents d fs ord =
        (if contents = [] then Fulfilled [] else Rejected not_a_function))"
proof (intro conjI impI)
  show "map_of exports_builders ''getFileMetadata'' = None"
    by (rule getFileMetadata_undefined)
  show "''getFileMetadata'' \<notin> set exports_names"
    by (simp add: exports_names_def)
next
  assume r: "readdir_of fs d = Inr contents"
  have m: "(\<lambda>base. call_export ''getFileMetadata'' d base fs) = (\<lambda>base. Inl not_a_function)"
    by (simp add: call_export_def getFileMetadata_undefined)
  show "getDirectoryContents d fs ord =
          (if contents = [] then Fulfilled [] else Rejected not_a_function)"
  proof (cases "contents = []")
    case True
    then show ?thesis using r
      by (cases ord)
         (simp_all add: getDirectoryContents_def readdirAsync_def then_promise_def
            Bluebird_map_def all_filled_def)
  next
    case False
    then show ?thesis using r
      by (simp add: getDirectoryContents_def readdirAsync_def then_promise_def
            Bluebird_map_def m call_all_throw)
  qed
qed

theorem getDirectoryContents_undefined_export_witness:
  "readdir_of example_fs ''/tmp/x'' = Inr [''notes.txt'', ''sub'', ''.gitignore'', ''.config''] \<and>
   getDirectoryContents ''/tmp/x'' example_fs [1, 0, 3, 2] = Rejected not_a_function \<and>
   readdir_of example_fs ''/tmp/x/sub'' = Inr [] \<and>
   getDirectoryContents ''/tmp/x/sub'' example_fs [] = Fulfilled []"
proof -
  have h1: "readdir_of example_fs ''/tmp/x'' =
              Inr [''notes.txt'', ''sub'', ''.gitignore'', ''.config'']"
    by code_simp
  have h2: "readdir_of example_fs ''/tmp/x/sub'' = Inr []"
    by code_simp
  show ?thesis
    using h1 h2
      getDirectoryContents_undefined_export
        [of example_fs "''/tmp/x''" "[''notes.txt'', ''sub'', ''.gitignore'', ''.config'']"
            "[1, 0, 3, 2]"]
      getDirectoryContents_undefined_export [of example_fs "''/tmp/x/sub''" "[]" "[]"]
    by simp
qed

text \<open>
  C1 fails on the code: for the readable directory \<^verbatim>\<open>/tmp/x\<close>, whose entries all have
  a readable status, \<open>getDirectoryContents\<close> is rejected and yields no record.
\<close>

theorem getDirectoryContents_rejects_listing:
  "readdir_of example_fs ''/tmp/x'' = Inr [''notes.txt'', ''sub'', ''.gitignore'', ''.config''] \<and>
   list_all (\<lambda>b. \<not> isl (lstat_of example_fs (path_join [''/tmp/x'', b])))
     [''notes.txt'', ''sub'', ''.gitignore'', ''.config''] \<and>
   getDirectoryContents ''/tmp/x'' example_fs [0, 1, 2, 3] = Rejected not_a_function"
proof -
  have "getDirectoryContents ''/tmp/x'' example_fs [0, 1, 2, 3] = Rejected not_a_function"
    by code_simp
  moreover have "readdir_of example_fs ''/tmp/x'' =
      Inr [''notes.txt'', ''sub'', ''.gitignore'', ''.config'']"
    by code_simp
  moreover have "list_all (\<lambda>b. \<not> isl (lstat_of example_fs (path_join [''/tmp/x'', b])))
      [''notes.txt'', ''sub'', ''.gitignore'', ''.config'']"
    by code_simp
  ultimately show ?thesis by simp
qed

section \<open>Subpaths of a value that is not a string\<close>

lemma isString_cases:
  "isString v =
     (typeof_string v \<or> (\<exists>s. v = JStringObject s) \<or> v = JObject ''[object String]'')"
  by (cases v)
     (simp_all add: isString_def typeof_string_def isArray_def isObjectLike_def baseGetTag_def)

text \<open>
  C9 as stated fails. A \<^verbatim>\<open>String\<close> wrapper object is not a string primitive, yet it
  passes the guard: for \<^verbatim>\<open>new String('/a/b/c')\<close> the call returns four records after
  four status queries. An object tagged \<^verbatim>\<open>String\<close> passes the guard as well, and the
  call then throws a TypeError at \<^verbatim>\<open>fullpath.split\<close>.
\<close>

theorem subpaths_string_object_counterexample:
  "\<not> typeof_string (JStringObject ''/a/b/c'') \<and>
   (case fst (subpaths (JStringObject ''/a/b/c'') example_fs) of
      Inr (Some ms) \<Rightarrow> map fullpath ms
    | _ \<Rightarrow> []) = [''/'', ''/a'', ''/a/b'', ''/a/b/c''] \<and>
   snd (subpaths (JStringObject ''/a/b/c'') example_fs) =
     [Lstat ''/'', Lstat ''/a'', Lstat ''/a/b'', Lstat ''/a/b/c''] \<and>
   \<not> typeof_string (JObject ''[object String]'') \<and>
   subpaths (JObject ''[object String]'') example_fs = (Inl not_a_function, [])"
  by code_simp

text \<open>
  C9, as the code has it. For every value that the guard \<^verbatim>\<open>_.isString\<close> rejects, that
  is, every value that is neither a string primitive nor a \<^verbatim>\<open>String\<close> wrapper object
  nor another object tagged \<^verbatim>\<open>String\<close> (so every number, boolean, \<^verbatim>\<open>null\<close>,
  \<^verbatim>\<open>undefined\<close>, array, function and object with another tag), \<open>subpaths\<close> returns
  \<^verbatim>\<open>null\<close>, throws nothing and performs no filesystem query.
\<close>

theorem subpaths_non_string:
  assumes "\<not> typeof_string v"
    and "\<forall>s. v \<noteq> JStringObject s"
    and "v \<noteq> JObject ''[object String]''"
  shows "\<not> isString v \<and> subpaths v fs = (Inr None, [])"
proof -
  have "\<not> isString v" using assms by (simp add: isString_cases)
  then show ?thesis by (simp add: subpaths_def)
qed

theorem subpaths_non_string_witness:
  "\<not> isString (JNumber 42) \<and> subpaths (JNumber 42) example_fs = (Inr None, []) \<and>
   \<not> isString (JObject ''[object Object]'') \<and>
   subpaths (JObject ''[object Object]'') example_fs = (Inr None, [])"
proof -
  have n1: "\<not> typeof_string (JNumber 42)" by (simp add: typeof_string_def)
  have n2: "\<forall>s. JNumber 42 \<noteq> JStringObject s" by simp
  have n3: "JNumber 42 \<noteq> JObject ''[object String]''" by simp
  have o1: "\<not> typeof_string (JObject ''[object Object]'')" by (simp add: typeof_string_def)
  have o2: "\<forall>s. JObject ''[object Object]'' \<noteq> JStringObject s" by simp
  have o3: "JObject ''[object Object]'' \<noteq> JObject ''[object String]''" by simp
  show ?thesis
    using subpaths_non_string [OF n1 n2 n3, of example_fs]
      subpaths_non_string [OF o1 o2 o3, of example_fs]
    by simp
qed

section \<open>Normalizing a path that ends in a component\<close>

lemma component_last:
  assumes "is_component n"
  shows "n \<noteq> [] \<and> last n \<noteq> CHR ''/''"
proof -
  have ne: "n \<noteq> []" using assms by (simp add: is_component_def)
  then have "last n \<in> set n" by simp
  moreover have "CHR ''/'' \<notin> set n" using assms by (simp add: is_component_def)
  ultimately show ?thesis using ne by metis
qed

lemma ns_run_0: "ns_run path a 0 = ns_init"
  by (simp add: ns_run_def)

lemma ns_run_Suc: "ns_run path a (Suc k) = ns_step path a k (path ! k) (ns_run path a k)"
  by (simp add: ns_run_def)

lemma slice_append: "b \<le> length p \<Longrightarrow> slice (p @ q) a b = slice p a b"
  by (simp add: slice_def)

lemma ns_step_append: "i \<le> length p \<Longrightarrow> ns_step (p @ q) a i c s = ns_step p a i c s"
  by (simp add: ns_step_def slice_append)

lemma ns_run_append: "k \<le> length p \<Longrightarrow> ns_run (p @ q) a k = ns_run p a k"
proof (induction k)
  case 0
  show ?case by (simp add: ns_run_0)
next
  case (Suc k)
  then have "(p @ q) ! k = p ! k" by (simp add: nth_append)
  with Suc show ?case by (simp add: ns_run_Suc ns_step_append)
qed

lemma ns_step_slash:
  "lastSlash (ns_step path a i CHR ''/'' s) = int i \<and> dots (ns_step path a i CHR ''/'' s) = 0"
  by (simp add: ns_step_def ns_pop_def ns_above_root_def Let_def)

lemma ns_run_after_slash:
  assumes "p = [] \<or> last p = CHR ''/''"
  shows "lastSlash (ns_run p a (length p)) = int (length p) - 1 \<and>
         dots (ns_run p a (length p)) = 0"
proof (cases "p = []")
  case True
  then show ?thesis by (simp add: ns_run_0 ns_init_def)
next
  case False
  with assms have l: "last p = CHR ''/''" by simp
  from False obtain k where k: "length p = Suc k" by (cases p) auto
  with False l have "p ! k = CHR ''/''" by (simp add: last_conv_nth)
  with k show ?thesis using ns_step_slash [of p a k "ns_run p a k"]
    by (simp add: ns_run_Suc)
qed

lemma seg_dots_snoc:
  "seg_dots (m @ [c]) = (if c = CHR ''.'' \<and> seg_dots m \<noteq> -1 then seg_dots m + 1 else -1)"
  by (simp add: seg_dots_def)

lemma ns_run_segment:
  assumes "CHR ''/'' \<notin> set n"
    and "dots (ns_run (p @ n @ q) a (length p)) = 0"
  shows "ns_run (p @ n @ q) a (length p + length n) =
         (ns_run (p @ n @ q) a (length p))\<lparr>dots := seg_dots n\<rparr>"
  using assms
proof (induction n arbitrary: q rule: rev_induct)
  case Nil
  then show ?case by (simp add: seg_dots_def)
next
  case (snoc c m)
  have P: "p @ (m @ [c]) @ q = p @ m @ ([c] @ q)" by simp
  have c: "c \<noteq> CHR ''/''" and m: "CHR ''/'' \<notin> set m" using snoc.prems(1) by auto
  have d0: "dots (ns_run (p @ m @ ([c] @ q)) a (length p)) = 0"
    using snoc.prems(2) by simp
  have ih: "ns_run (p @ m @ ([c] @ q)) a (length p + length m) =
            (ns_run (p @ m @ ([c] @ q)) a (length p))\<lparr>dots := seg_dots m\<rparr>"
    by (rule snoc.IH [OF m d0])
  have nth: "(p @ m @ ([c] @ q)) ! (length p + length m) = c"
    by (simp add: nth_append)
  have "ns_run (p @ m @ ([c] @ q)) a (length p + length (m @ [c])) =
        ns_step (p @ m @ ([c] @ q)) a (length p + length m) c
          ((ns_run (p @ m @ ([c] @ q)) a (length p))\<lparr>dots := seg_dots m\<rparr>)"
    using ih nth by (simp add: ns_run_Suc)
  also have "\<dots> = (ns_run (p @ m @ ([c] @ q)) a (length p))\<lparr>dots := seg_dots (m @ [c])\<rparr>"
    using c by (simp add: ns_step_def seg_dots_snoc)
  finally show ?case unfolding P .
qed

lemma seg_dots_component:
  assumes "is_component n"
  shows "seg_dots n \<noteq> 1 \<and> seg_dots n \<noteq> 2"
proof -
  have "n = ''.''" if "list_all (\<lambda>c. c = CHR ''.'') n" "length n = 1"
    using that by (cases n) auto
  moreover have "n = ''..''" if "list_all (\<lambda>c. c = CHR ''.'') n" "length n = 2"
  proof -
    from that(2) obtain x y where "n = [x, y]"
      by (cases n; cases "tl n") auto
    with that(1) show ?thesis by simp
  qed
  ultimately show ?thesis using assms
    by (auto simp: seg_dots_def is_component_def)
qed

lemma ns_step_close_segment:
  assumes "is_component n"
    and "lastSlash s = int (length p) - 1"
    and "dots s = seg_dots n"
  shows "res (ns_step (p @ n @ q) a (length p + length n) CHR ''/'' s) = seg_join (res s) n"
proof -
  have n: "n \<noteq> []" using assms(1) by (simp add: is_component_def)
  have sl: "slice (p @ n @ q) (length p) (length p + length n) = n"
    by (simp add: slice_def)
  have ls: "nat (lastSlash s + 1) = length p" using assms(2) by simp
  have ne: "lastSlash s \<noteq> int (length p + length n) - 1"
    using assms(2) n by simp
  from seg_dots_component [OF assms(1)] assms(3)
  have d: "dots s \<noteq> 1" "dots s \<noteq> 2" by simp_all
  show ?thesis
    using ne d by (simp add: ns_step_def ls sl seg_join_def)
qed

lemma ns_state_after_segment:
  assumes "is_component n" and "p = [] \<or> last p = CHR ''/''"
  shows "res (ns_step (p @ n @ q) a (length p + length n) CHR ''/''
                (ns_run (p @ n @ q) a (length p + length n))) =
         seg_join (ns_res p a) n"
proof -
  let ?P = "p @ n @ q"
  have pre: "ns_run ?P a (length p) = ns_run p a (length p)"
    by (simp add: ns_run_append)
  from ns_run_after_slash [OF assms(2), of a]
  have ls: "lastSlash (ns_run p a (length p)) = int (length p) - 1"
    and d0: "dots (ns_run p a (length p)) = 0" by simp_all
  have nos: "CHR ''/'' \<notin> set n" using assms(1) by (simp add: is_component_def)
  have seg: "ns_run ?P a (length p + length n) = (ns_run p a (length p))\<lparr>dots := seg_dots n\<rparr>"
    using ns_run_segment [OF nos, of p q a] d0 pre by simp
  show ?thesis
    unfolding seg
    using ns_step_close_segment [OF assms(1), of "(ns_run p a (length p))\<lparr>dots := seg_dots n\<rparr>" p q a] ls
    by (simp add: ns_res_def)
qed

lemma ns_res_segment:
  assumes "is_component n" and "p = [] \<or> last p = CHR ''/''"
  shows "ns_res (p @ n @ ''/'') a = seg_join (ns_res p a) n"
proof -
  have "ns_run (p @ n @ ''/'') a (length (p @ n @ ''/'')) =
        ns_step (p @ n @ ''/'') a (length p + length n) CHR ''/''
          (ns_run (p @ n @ ''/'') a (length p + length n))"
    by (simp add: ns_run_Suc nth_append)
  then show ?thesis
    using ns_state_after_segment [OF assms, of "''/''" a] by (simp add: ns_res_def)
qed

lemma normalizeString_segment:
  assumes "is_component n" and "p = [] \<or> last p = CHR ''/''"
  shows "normalizeString (p @ n) a = seg_join (ns_res p a) n"
proof -
  have n: "n \<noteq> []" "last n \<noteq> CHR ''/''"
    using component_last [OF assms(1)] by simp_all
  then have "last (p @ n) \<noteq> CHR ''/''" by simp
  then show ?thesis
    using ns_state_after_segment [OF assms, of "[]" a] n by (simp add: normalizeString_def)
qed

lemma ns_res_slash:
  assumes "p = [] \<or> last p = CHR ''/''"
  shows "ns_res (p @ ''/'') a = ns_res p a"
proof -
  from ns_run_after_slash [OF assms, of a]
  have ls: "lastSlash (ns_run p a (length p)) = int (length p) - 1" by simp
  have "ns_run (p @ ''/'') a (length (p @ ''/'')) =
        ns_step (p @ ''/'') a (length p) CHR ''/'' (ns_run p a (length p))"
    by (simp add: ns_run_Suc ns_run_append)
  then show ?thesis using ls by (simp add: ns_res_def ns_step_def)
qed


lemma path_normalize_segment:
  assumes "is_component n" and "p = [] \<or> last p = CHR ''/''"
  shows "\<exists>pre. path_normalize (p @ n) = pre @ n \<and> (pre = [] \<or> last pre = CHR ''/'')"
proof -
  have n: "n \<noteq> []" "last n \<noteq> CHR ''/''"
    using component_last [OF assms(1)] by simp_all
  define ab where "ab = (hd (p @ n) = CHR ''/'')"
  define r where "r = ns_res p (\<not> ab)"
  define root where "root = (if ab then ''/'' else [])"
  have ns: "normalizeString (p @ n) (\<not> ab) = seg_join r n"
    unfolding r_def by (rule normalizeString_segment [OF assms])
  have ne: "seg_join r n \<noteq> []" using n by (simp add: seg_join_def)
  have pn: "path_normalize (p @ n) = root @ seg_join r n"
    using n ne ns by (simp add: path_normalize_def Let_def ab_def [symmetric] root_def)
  show ?thesis
  proof (cases "r = []")
    case True
    then have "path_normalize (p @ n) = root @ n"
      using pn by (simp add: seg_join_def)
    moreover have "root = [] \<or> last root = CHR ''/''" by (simp add: root_def)
    ultimately show ?thesis by blast
  next
    case False
    then have "path_normalize (p @ n) = (root @ r @ ''/'') @ n"
      using pn by (simp add: seg_join_def)
    moreover have "last (root @ r @ ''/'') = CHR ''/''" by simp
    ultimately show ?thesis by blast
  qed
qed

lemma join_args_pair:
  "join_args [d, n] =
     (if d \<noteq> [] then (if n \<noteq> [] then Some (d @ ''/'' @ n) else Some d)
      else if n \<noteq> [] then Some n else None)"
  by (simp add: join_args_def)

lemma path_join_component:
  assumes "is_component n"
  shows "\<exists>pre. path_join [d, n] = pre @ n \<and> (pre = [] \<or> last pre = CHR ''/'')"
proof -
  have n: "n \<noteq> []" using assms by (simp add: is_component_def)
  show ?thesis
  proof (cases "d = []")
    case True
    then have "path_join [d, n] = path_normalize ([] @ n)"
      using n by (simp add: path_join_def join_args_pair)
    then show ?thesis using path_normalize_segment [OF assms, of "[]"] by simp
  next
    case False
    then have "path_join [d, n] = path_normalize ((d @ ''/'') @ n)"
      using n by (simp add: path_join_def join_args_pair)
    then show ?thesis using path_normalize_segment [OF assms, of "d @ ''/''"] by simp
  qed
qed

section \<open>Parsing a path that ends in a component\<close>

lemma lastIndexOf_ge: "- 1 \<le> lastIndexOf xs c"
  by (induction xs) (auto simp: Let_def)

lemma lastIndexOf_none: "(lastIndexOf xs c = - 1) = (c \<notin> set xs)"
proof (induction xs)
  case Nil
  show ?case by simp
next
  case (Cons x xs)
  have "lastIndexOf xs c + 1 \<noteq> - 1" using lastIndexOf_ge [of xs c] by arith
  with Cons show ?case by (auto simp: Let_def)
qed

lemma lastIndexOf_Cons:
  "lastIndexOf (x # xs) c =
     (if c \<in> set xs then lastIndexOf xs c + 1 else if x = c then 0 else - 1)"
  by (simp add: Let_def lastIndexOf_none)

declare lastIndexOf.simps(2) [simp del]

lemma lastIndexOf_nth:
  "c \<in> set xs \<Longrightarrow>
   0 \<le> lastIndexOf xs c \<and> nat (lastIndexOf xs c) < length xs \<and> xs ! nat (lastIndexOf xs c) = c"
proof (induction xs)
  case Nil
  then show ?case by simp
next
  case (Cons x xs)
  show ?case
  proof (cases "c \<in> set xs")
    case True
    from Cons.IH [OF True] show ?thesis
      by (simp add: lastIndexOf_Cons True nat_add_distrib)
  next
    case False
    with Cons.prems show ?thesis by (simp add: lastIndexOf_Cons)
  qed
qed

lemma parse_loop_append:
  "k \<le> length p \<Longrightarrow> parse_loop (p @ q) start k s = parse_loop p start k s"
  by (induction k arbitrary: s) (simp_all add: nth_append)

lemma parse_loop_segment:
  assumes "CHR ''/'' \<notin> set n" and "start \<le> length pre"
  shows "parse_loop (pre @ n @ q) start (length pre + length n) s =
         parse_loop (pre @ n @ q) start (length pre) (seg_scan (length pre) n s)"
  using assms
proof (induction n arbitrary: pre)
  case Nil
  show ?case by simp
next
  case (Cons c cs)
  let ?P = "pre @ (c # cs) @ q"
  have P: "?P = (pre @ [c]) @ cs @ q" by simp
  have c: "c \<noteq> CHR ''/''" and cs: "CHR ''/'' \<notin> set cs" using Cons.prems(1) by auto
  have st: "start \<le> length (pre @ [c])" using Cons.prems(2) by simp
  have "parse_loop ?P start (length pre + length (c # cs)) s =
        parse_loop ?P start (Suc (length pre)) (seg_scan (Suc (length pre)) cs s)"
    using Cons.IH [OF cs st] unfolding P by simp
  also have "\<dots> = parse_loop ?P start (length pre)
                     (parse_char (length pre) c (seg_scan (Suc (length pre)) cs s))"
    using c Cons.prems(2) by (simp add: nth_append)
  finally show ?case by simp
qed

lemma seg_scan_init:
  "n \<noteq> [] \<Longrightarrow> seg_scan off n parse_init = seg_state off n"
proof (induction n arbitrary: off)
  case Nil
  then show ?case by simp
next
  case (Cons c cs)
  show ?case
  proof (cases "cs = []")
    case True
    then show ?thesis
      by (simp add: parse_char_def parse_init_def seg_state_def Let_def lastIndexOf_Cons)
  next
    case False
    have ih: "seg_scan (Suc off) cs parse_init = seg_state (Suc off) cs"
      by (rule Cons.IH [OF False])
    have ge: "0 \<le> lastIndexOf cs CHR ''.''" if "CHR ''.'' \<in> set cs"
      using lastIndexOf_nth [OF that] by simp
    have neg: "lastIndexOf cs CHR ''.'' = - 1" if "CHR ''.'' \<notin> set cs"
      using that by (simp add: lastIndexOf_none)
    show ?thesis
    proof (cases "CHR ''.'' \<in> set cs")
      case True
      with ge [OF True] show ?thesis
        by (simp add: ih seg_state_def parse_char_def Let_def lastIndexOf_Cons)
    next
      case nd: False
      with neg [OF nd] show ?thesis
        by (simp add: ih seg_state_def parse_char_def Let_def lastIndexOf_Cons)
    qed
  qed
qed


lemma slice_middle:
  "slice (pre @ n) (length pre + a) (length pre + b) = take (b - a) (drop a n)"
  by (simp add: slice_def)

lemma component_no_dotdot:
  assumes "is_component n" and "CHR ''.'' \<in> set n"
    and "hd n = CHR ''.''" and "lastIndexOf n CHR ''.'' = 1" and "length n = 2"
  shows False
proof -
  from assms(5) obtain x y where n: "n = [x, y]"
    by (cases n; cases "tl n") auto
  from lastIndexOf_nth [OF assms(2)] assms(4) have "n ! 1 = CHR ''.''" by simp
  with n assms(3) have "n = ''..''" by simp
  with assms(1) show False by (simp add: is_component_def)
qed

lemma path_parse_component:
  assumes comp: "is_component n" and pre: "pre = [] \<or> last pre = CHR ''/''"
  shows "p_base (path_parse (pre @ n)) = n \<and>
         p_ext (path_parse (pre @ n)) =
           (if lastIndexOf n CHR ''.'' \<le> 0 then [] else drop (nat (lastIndexOf n CHR ''.'')) n) \<and>
         p_name (path_parse (pre @ n)) =
           (if lastIndexOf n CHR ''.'' \<le> 0 then n else take (nat (lastIndexOf n CHR ''.'')) n)"
proof -
  let ?path = "pre @ n"
  define r where "r = lastIndexOf n CHR ''.''"
  define ab where "ab = (hd ?path = CHR ''/'')"
  define start where "start = (if ab then 1 else 0::nat)"
  have n: "n \<noteq> []" and nos: "CHR ''/'' \<notin> set n"
    using comp by (simp_all add: is_component_def)
  then have hdn: "hd n \<noteq> CHR ''/''" by (cases n) auto
  have ab_pre: "pre \<noteq> []" if ab using that hdn by (auto simp: ab_def)
  have st_le: "start \<le> length pre"
    using ab_pre by (cases pre) (auto simp: start_def)
  define s1 where "s1 = seg_state (length pre) n"
  have scan: "parse_loop ?path start (length ?path) parse_init =
              parse_loop ?path start (length pre) s1"
    using parse_loop_segment [OF nos st_le, of "[]" parse_init] seg_scan_init [OF n, of "length pre"]
    by (simp add: s1_def)
  define sp where "sp = (if pre = [] \<or> (ab \<and> length pre = 1) then 0 else length pre)"
  have fin: "parse_loop ?path start (length pre) s1 = s1\<lparr>startPart := sp\<rparr>"
  proof (cases "pre = []")
    case True
    then show ?thesis by (simp add: sp_def s1_def seg_state_def)
  next
    case False
    then obtain k where k: "length pre = Suc k" by (cases pre) auto
    with False pre have "?path ! k = CHR ''/''"
      by (simp add: nth_append last_conv_nth)
    then show ?thesis using k False
      by (auto simp: sp_def s1_def seg_state_def start_def)
  qed
  define s where "s = parse_loop ?path start (length ?path) parse_init"
  have s: "s = s1\<lparr>startPart := sp\<rparr>" using scan fin by (simp add: s_def)
  have st: "(if startPart s = 0 \<and> ab then 1 else startPart s) = length pre"
    using ab_pre by (cases pre) (auto simp: s sp_def)
  have e: "end_idx s = int (length pre) + int (length n)"
    by (simp add: s s1_def seg_state_def)
  have ene: "end_idx s \<noteq> - 1" using e by simp
  have rge: "0 \<le> r \<and> nat r < length n" if "CHR ''.'' \<in> set n"
    using lastIndexOf_nth [OF that] by (simp add: r_def)
  have rneg: "r = - 1" if "CHR ''.'' \<notin> set n"
    using that by (simp add: r_def lastIndexOf_none)
  have sd: "startDot s = (if CHR ''.'' \<in> set n then int (length pre) + r else - 1)"
    by (simp add: s s1_def seg_state_def r_def)
  have pds: "preDotState s = (if r \<le> 0 then 0 else if hd n = CHR ''.'' then 1 else - 1)"
    by (simp add: s s1_def seg_state_def r_def)
  have noext: "(startDot s = - 1 \<or> preDotState s = 0 \<or>
                (preDotState s = 1 \<and> startDot s = end_idx s - 1 \<and>
                 startDot s = int (startPart s) + 1)) = (r \<le> 0)"
  proof (cases "CHR ''.'' \<in> set n")
    case False
    then show ?thesis using rneg sd by simp
  next
    case True
    note rg = rge [OF True]
    show ?thesis
    proof (cases "r \<le> 0")
      case True
      then show ?thesis using pds by simp
    next
      case False
      have "\<not> (preDotState s = 1 \<and> startDot s = end_idx s - 1 \<and>
                startDot s = int (startPart s) + 1)"
      proof
        assume a: "preDotState s = 1 \<and> startDot s = end_idx s - 1 \<and>
                   startDot s = int (startPart s) + 1"
        then have h: "hd n = CHR ''.''" using pds False by (simp split: if_splits)
        from a have r1: "r = int (length n) - 1" using sd e True by simp
        from a have r2: "int (length pre) + r = int sp + 1"
          using sd True by (simp add: s)
        have "r = 1"
        proof (cases "pre = [] \<or> (ab \<and> length pre = 1)")
          case True
          then show ?thesis using r2 False by (auto simp: sp_def)
        next
          case False
          then show ?thesis using r2 by (auto simp: sp_def)
        qed
        with r1 have "length n = 2" by simp
        with component_no_dotdot [OF comp True h] \<open>r = 1\<close> show False
          by (simp add: r_def)
      qed
      with False sd pds True show ?thesis by simp
    qed
  qed
  have pp: "path_parse ?path =
     \<lparr>p_root = (if ab then ''/'' else []),
      p_dir = (if startPart s > 0 then slice ?path 0 (startPart s - 1)
               else if ab then ''/'' else []),
      p_base = slice ?path (length pre) (nat (end_idx s)),
      p_ext = (if \<not> r \<le> 0 then slice ?path (nat (startDot s)) (nat (end_idx s)) else []),
      p_name = (if r \<le> 0 then slice ?path (length pre) (nat (end_idx s))
                else slice ?path (length pre) (nat (startDot s)))\<rparr>"
    unfolding path_parse_def Let_def
    unfolding ab_def [symmetric]
    unfolding start_def [symmetric]
    unfolding s_def [symmetric]
    using n ene noext st by simp
  have base: "slice ?path (length pre) (nat (end_idx s)) = n"
    using slice_middle [of pre n 0 "length n"] e by (simp add: nat_add_distrib)
  have ext: "slice ?path (nat (startDot s)) (nat (end_idx s)) = drop (nat r) n" if "\<not> r \<le> 0"
  proof -
    from that have d: "CHR ''.'' \<in> set n" using rneg by force
    have "nat (startDot s) = length pre + nat r" using sd d that by (simp add: nat_add_distrib)
    moreover have "nat (end_idx s) = length pre + length n" using e by (simp add: nat_add_distrib)
    ultimately show ?thesis using slice_middle [of pre n "nat r" "length n"] by simp
  qed
  have nm: "slice ?path (length pre) (nat (startDot s)) = take (nat r) n" if "\<not> r \<le> 0"
  proof -
    from that have d: "CHR ''.'' \<in> set n" using rneg by force
    have "nat (startDot s) = length pre + nat r" using sd d that by (simp add: nat_add_distrib)
    then show ?thesis using slice_middle [of pre n 0 "nat r"] by simp
  qed
  show ?thesis
    unfolding pp using base ext nm by (simp add: r_def)
qed

section \<open>Metadata of a directory entry\<close>

lemma drop_lastIndexOf:
  "c \<in> set n \<Longrightarrow>
   drop (nat (lastIndexOf n c) + 1) n = rev (takeWhile (\<lambda>x. x \<noteq> c) (rev n))"
proof (induction n)
  case Nil
  then show ?case by simp
next
  case (Cons x xs)
  show ?case
  proof (cases "c \<in> set xs")
    case True
    from lastIndexOf_nth [OF True] have ge: "0 \<le> lastIndexOf xs c" by simp
    have "takeWhile (\<lambda>x. x \<noteq> c) (rev xs @ [x]) = takeWhile (\<lambda>x. x \<noteq> c) (rev xs)"
      by (rule takeWhile_append1 [of c]) (use True in simp_all)
    with Cons.IH [OF True] ge show ?thesis
      by (simp add: lastIndexOf_Cons True nat_add_distrib)
  next
    case False
    with Cons.prems have xc: "x = c" by simp
    have "takeWhile (\<lambda>x. x \<noteq> c) (rev xs @ [x]) = rev xs @ takeWhile (\<lambda>x. x \<noteq> c) [x]"
      by (rule takeWhile_append2) (use False in auto)
    with xc False show ?thesis by (simp add: lastIndexOf_Cons)
  qed
qed

lemma lastIndexOf_le0: "n \<noteq> [] \<Longrightarrow> (lastIndexOf n c \<le> 0) = (c \<notin> set (tl n))"
proof (cases n)
  case Nil
  then show "n \<noteq> [] \<Longrightarrow> ?thesis" by simp
next
  case (Cons x xs)
  have "0 \<le> lastIndexOf xs c" if "c \<in> set xs" using lastIndexOf_nth [OF that] by simp
  then show ?thesis using Cons by (auto simp: lastIndexOf_Cons)
qed

lemma replace_dot_drop:
  assumes "k < length n" and "n ! k = CHR ''.''"
  shows "replace_dot (drop k n) = drop (k + 1) n"
proof -
  have "drop k n = CHR ''.'' # drop (Suc k) n"
    using assms by (metis Cons_nth_drop_Suc)
  then show ?thesis by (simp add: replace_dot_def)
qed

lemma build_metadata_component:
  assumes "is_component n"
  shows "basename (build_metadata d n st) = n \<and>
         isHidden (build_metadata d n st) = startsWith_dot n \<and>
         extension (build_metadata d n st) =
           (if CHR ''.'' \<in> set (tl n) then after_last_dot n else []) \<and>
         name (build_metadata d n st) =
           (if CHR ''.'' \<in> set (tl n) then take (nat (lastIndexOf n CHR ''.'')) n else n)"
proof -
  from path_join_component [OF assms, of d] obtain pre
    where j: "path_join [d, n] = pre @ n" and pre: "pre = [] \<or> last pre = CHR ''/''"
    by blast
  note pp = path_parse_component [OF assms pre]
  have ne: "n \<noteq> []" using assms by (simp add: is_component_def)
  note le0 = lastIndexOf_le0 [OF ne, of "CHR ''.''"]
  have ext: "replace_dot (drop (nat (lastIndexOf n CHR ''.'')) n) = after_last_dot n"
    if "CHR ''.'' \<in> set (tl n)"
  proof -
    from that ne have d: "CHR ''.'' \<in> set n" by (cases n) auto
    from lastIndexOf_nth [OF d] replace_dot_drop
    have "replace_dot (drop (nat (lastIndexOf n CHR ''.'')) n) =
          drop (nat (lastIndexOf n CHR ''.'') + 1) n" by blast
    with drop_lastIndexOf [OF d] show ?thesis by (simp add: after_last_dot_def)
  qed
  show ?thesis
    using pp ext le0 by (simp add: build_metadata_def j replace_dot_def)
qed

lemma name_dot_extension:
  assumes "is_component n" and "CHR ''.'' \<in> set (tl n)"
  shows "name (build_metadata d n st) @ ''.'' @ extension (build_metadata d n st) = n"
proof -
  have ne: "n \<noteq> []" using assms by (simp add: is_component_def)
  with assms(2) have d: "CHR ''.'' \<in> set n" by (cases n) auto
  let ?k = "nat (lastIndexOf n CHR ''.'')"
  from lastIndexOf_nth [OF d] have k: "?k < length n" "n ! ?k = CHR ''.''" by simp_all
  have "take ?k n @ ''.'' @ drop (?k + 1) n = n"
    using id_take_nth_drop [OF k(1)] k(2) by simp
  moreover have "after_last_dot n = drop (?k + 1) n"
    using drop_lastIndexOf [OF d] by (simp add: after_last_dot_def)
  ultimately show ?thesis
    using build_metadata_component [OF assms(1), of d st] assms(2) by simp
qed

lemma metadata_cases:
  assumes "fst (getFileMetadataSync d n fs) = Inr m \<or> getFileMetadataAsync d n fs = Fulfilled m"
  shows "\<exists>st. lstat_of fs (path_join [d, n]) = Inr st \<and> m = build_metadata d n st"
proof (cases "lstat_of fs (path_join [d, n])")
  case (Inl err)
  with assms show ?thesis by (simp add: sync_fail async_fail)
next
  case (Inr st)
  with assms show ?thesis by (auto simp: sync_ok async_ok)
qed

text \<open>
  C3 as stated fails: for the dotfile \<^verbatim>\<open>.gitignore\<close> the parsed extension is empty and
  the name is the whole base, while the substring after the last \<^verbatim>\<open>.\<close> is
  \<^verbatim>\<open>gitignore\<close>. And the extension is that of the joined path, not of the name passed
  in: with the default empty name, \<^verbatim>\<open>/tmp/x/notes.txt\<close> has extension \<^verbatim>\<open>txt\<close>.
\<close>

theorem dotfile_extension_counterexample:
  "fst (getFileMetadataSync ''/tmp/x'' ''.gitignore'' example_fs) =
     Inr \<lparr>basename = ''.gitignore'', dirname = ''/tmp/x'', fullpath = ''/tmp/x/.gitignore'',
          extension = [], name = ''.gitignore'', isDirectory = False, isHidden = True,
          size_bytes = 12\<rparr> \<and>
   CHR ''.'' \<in> set ''.gitignore'' \<and>
   after_last_dot ''.gitignore'' = ''gitignore'' \<and>
   fst (getFileMetadataSync ''/tmp/x/notes.txt'' [] example_fs) =
     Inr \<lparr>basename = ''notes.txt'', dirname = ''/tmp/x'', fullpath = ''/tmp/x/notes.txt'',
          extension = ''txt'', name = ''notes'', isDirectory = False, isHidden = False,
          size_bytes = 3\<rparr> \<and>
   CHR ''.'' \<notin> set []"
  by code_simp

text \<open>
  C3, as the code has it. For a name \<open>n\<close> that is a single path component and a lookup
  that succeeds (in either form), the extension is the substring after the last \<^verbatim>\<open>.\<close>
  of \<open>n\<close> when \<open>n\<close> has a \<^verbatim>\<open>.\<close> beyond its first character, and then name, \<^verbatim>\<open>.\<close> and
  extension make up \<open>n\<close>; otherwise (no \<^verbatim>\<open>.\<close>, or only a leading one) the extension is
  empty and the name is \<open>n\<close>. For \<^verbatim>\<open>.gitignore\<close> the extension is empty and the name is
  \<^verbatim>\<open>.gitignore\<close>.
\<close>

theorem extension_of_component:
  assumes "is_component n"
    and "fst (getFileMetadataSync d n fs) = Inr m \<or> getFileMetadataAsync d n fs = Fulfilled m"
  shows "extension m = (if CHR ''.'' \<in> set (tl n) then after_last_dot n else []) \<and>
         (CHR ''.'' \<in> set (tl n) \<longrightarrow> name m @ ''.'' @ extension m = n) \<and>
         (CHR ''.'' \<notin> set (tl n) \<longrightarrow> name m = n) \<and>
         (n = ''.gitignore'' \<longrightarrow> extension m = [] \<and> name m = ''.gitignore'')"
proof -
  from metadata_cases [OF assms(2)] obtain st where m: "m = build_metadata d n st" by blast
  show ?thesis
    unfolding m
    using build_metadata_component [OF assms(1), of d st] name_dot_extension [OF assms(1), of d st]
    by auto
qed

theorem extension_of_component_witness:
  "is_component ''notes.txt'' \<and>
   extension \<lparr>basename = ''notes.txt'', dirname = ''/tmp/x'', fullpath = ''/tmp/x/notes.txt'',
              extension = ''txt'', name = ''notes'', isDirectory = False, isHidden = False,
              size_bytes = 3\<rparr> = after_last_dot ''notes.txt'' \<and>
   after_last_dot ''notes.txt'' = ''txt'' \<and>
   is_component ''.gitignore'' \<and>
   extension \<lparr>basename = ''.gitignore'', dirname = ''/tmp/x'',
              fullpath = ''/tmp/x/.gitignore'', extension = [], name = ''.gitignore'',
              isDirectory = False, isHidden = True, size_bytes = 12\<rparr> = []"
proof -
  let ?m1 = "\<lparr>basename = ''notes.txt'', dirname = ''/tmp/x'', fullpath = ''/tmp/x/notes.txt'',
              extension = ''txt'', name = ''notes'', isDirectory = False, isHidden = False,
              size_bytes = 3\<rparr>"
  let ?m2 = "\<lparr>basename = ''.gitignore'', dirname = ''/tmp/x'',
              fullpath = ''/tmp/x/.gitignore'', extension = [], name = ''.gitignore'',
              isDirectory = False, isHidden = True, size_bytes = 12\<rparr>"
  have c1: "is_component ''notes.txt''" by code_simp
  have l1: "fst (getFileMetadataSync ''/tmp/x'' ''notes.txt'' example_fs) = Inr ?m1 \<or>
            getFileMetadataAsync ''/tmp/x'' ''notes.txt'' example_fs = Fulfilled ?m1"
    by code_simp
  have c2: "is_component ''.gitignore''" by code_simp
  have l2: "fst (getFileMetadataSync ''/tmp/x'' ''.gitignore'' example_fs) = Inr ?m2 \<or>
            getFileMetadataAsync ''/tmp/x'' ''.gitignore'' example_fs = Fulfilled ?m2"
    by code_simp
  have a: "after_last_dot ''notes.txt'' = ''txt''" by code_simp
  show ?thesis
    using extension_of_component [OF c1 l1] extension_of_component [OF c2 l2] c1 c2 a
    by simp
qed

text \<open>
  C4 as stated fails: the flag is computed from the base of the joined path, not from
  the name passed in. With the default empty name the directory \<^verbatim>\<open>/tmp/x/.config\<close>
  is hidden, and the name \<^verbatim>\<open>..\<close> under \<^verbatim>\<open>/tmp/x/sub\<close> denotes \<^verbatim>\<open>/tmp/x\<close>, which is not.
\<close>

theorem isHidden_counterexample:
  "fst (getFileMetadataSync ''/tmp/x/.config'' [] example_fs) =
     Inr \<lparr>basename = ''.config'', dirname = ''/tmp/x'', fullpath = ''/tmp/x/.config'',
          extension = [], name = ''.config'', isDirectory = True, isHidden = True,
          size_bytes = 4096\<rparr> \<and>
   \<not> startsWith_dot [] \<and>
   fst (getFileMetadataSync ''/tmp/x/sub'' ''..'' example_fs) =
     Inr \<lparr>basename = ''x'', dirname = ''/tmp'', fullpath = ''/tmp/x'',
          extension = [], name = ''x'', isDirectory = True, isHidden = False,
          size_bytes = 4096\<rparr> \<and>
   startsWith_dot ''..''"
  by code_simp

text \<open>
  C4, as the code has it. When the lookup succeeds (in either form), \<open>isHidden\<close> is true
  if and only if the base of the joined path, which is the \<open>basename\<close> of the record,
  starts with \<^verbatim>\<open>.\<close>; for a name \<open>n\<close> that is a single path component this is the case
  if and only if \<open>n\<close> starts with \<^verbatim>\<open>.\<close>.
\<close>

theorem isHidden_of_base:
  assumes "fst (getFileMetadataSync d n fs) = Inr m \<or> getFileMetadataAsync d n fs = Fulfilled m"
  shows "isHidden m = startsWith_dot (p_base (path_parse (path_join [d, n]))) \<and>
         basename m = p_base (path_parse (path_join [d, n])) \<and>
         (is_component n \<longrightarrow> isHidden m = startsWith_dot n)"
proof -
  from metadata_cases [OF assms] obtain st where m: "m = build_metadata d n st" by blast
  show ?thesis
    unfolding m using build_metadata_component [of n d st]
    by (simp add: build_metadata_def)
qed

theorem isHidden_of_base_witness:
  "is_component ''.gitignore'' \<and>
   isHidden \<lparr>basename = ''.gitignore'', dirname = ''/tmp/x'',
             fullpath = ''/tmp/x/.gitignore'', extension = [], name = ''.gitignore'',
             isDirectory = False, isHidden = True, size_bytes = 12\<rparr> =
     startsWith_dot ''.gitignore'' \<and>
   startsWith_dot ''.gitignore'' \<and>
   isHidden \<lparr>basename = ''.config'', dirname = ''/tmp/x'', fullpath = ''/tmp/x/.config'',
             extension = [], name = ''.config'', isDirectory = True, isHidden = True,
             size_bytes = 4096\<rparr> =
     startsWith_dot (p_base (path_parse (path_join [''/tmp/x/.config'', []])))"
proof -
  let ?m1 = "\<lparr>basename = ''.gitignore'', dirname = ''/tmp/x'',
              fullpath = ''/tmp/x/.gitignore'', extension = [], name = ''.gitignore'',
              isDirectory = False, isHidden = True, size_bytes = 12\<rparr>"
  let ?m2 = "\<lparr>basename = ''.config'', dirname = ''/tmp/x'', fullpath = ''/tmp/x/.config'',
              extension = [], name = ''.config'', isDirectory = True, isHidden = True,
              size_bytes = 4096\<rparr>"
  have c1: "is_component ''.gitignore''" by code_simp
  have l1: "fst (getFileMetadataSync ''/tmp/x'' ''.gitignore'' example_fs) = Inr ?m1 \<or>
            getFileMetadataAsync ''/tmp/x'' ''.gitignore'' example_fs = Fulfilled ?m1"
    by code_simp
  have l2: "fst (getFileMetadataSync ''/tmp/x/.config'' [] example_fs) = Inr ?m2 \<or>
            getFileMetadataAsync ''/tmp/x/.config'' [] example_fs = Fulfilled ?m2"
    by code_simp
  have d: "startsWith_dot ''.gitignore''" by code_simp
  have e: "p_base (path_parse (path_join [''/tmp/x/.config'', []])) = ''.config''"
    by code_simp
  show ?thesis
    using isHidden_of_base [OF l1] isHidden_of_base [OF l2] c1 d by (simp add: e)
qed

section \<open>Joining the root with components\<close>

lemma slash_join_Cons: "ys \<noteq> [] \<Longrightarrow> slash_join (x # ys) = x @ ''/'' @ slash_join ys"
  by (cases ys) simp_all

lemma slash_join_concat: "slash_join (cs @ [c]) = concat (map (\<lambda>x. x @ ''/'') cs) @ c"
  by (induction cs) (simp_all add: slash_join_Cons)

lemma slash_join_empty:
  assumes "list_all is_component cs"
  shows "(slash_join cs = []) = (cs = [])"
proof (cases cs)
  case Nil
  then show ?thesis by simp
next
  case (Cons x xs)
  with assms have "x \<noteq> []" by (simp add: is_component_def)
  with Cons show ?thesis by (cases xs) simp_all
qed

lemma seg_join_slash_join:
  assumes "list_all is_component cs"
  shows "seg_join (slash_join cs) c = slash_join (cs @ [c])"
proof (cases "cs = []")
  case True
  then show ?thesis by (simp add: seg_join_def)
next
  case False
  have "slash_join (cs @ [c]) = slash_join cs @ ''/'' @ c"
    using False by (induction cs rule: slash_join.induct) simp_all
  with False slash_join_empty [OF assms] show ?thesis by (simp add: seg_join_def)
qed

lemma ns_res_root: "ns_res ''/'' a = [] \<and> ns_res ''//'' a = []"
proof -
  have e: "ns_res [] a = []" by (simp add: ns_res_def ns_run_0 ns_init_def)
  have "ns_res ([] @ ''/'') a = ns_res [] a" by (rule ns_res_slash) simp
  then have one: "ns_res ''/'' a = []" using e by simp
  have "ns_res (''/'' @ ''/'') a = ns_res ''/'' a" by (rule ns_res_slash) simp
  with one show ?thesis by simp
qed

lemma last_lead_segments:
  assumes "lead \<noteq> []" and "last lead = CHR ''/''"
  shows "last (lead @ concat (map (\<lambda>c. c @ ''/'') cs)) = CHR ''/''"
  using assms by (induction cs rule: rev_induct) simp_all

lemma ns_res_components:
  assumes "list_all is_component cs"
    and "lead \<noteq> []" and "last lead = CHR ''/''" and "ns_res lead a = []"
  shows "ns_res (lead @ concat (map (\<lambda>c. c @ ''/'') cs)) a = slash_join cs"
  using assms(1)
proof (induction cs rule: rev_induct)
  case Nil
  show ?case using assms(4) by simp
next
  case (snoc c cs)
  then have cs: "list_all is_component cs" and c: "is_component c" by simp_all
  let ?p = "lead @ concat (map (\<lambda>c. c @ ''/'') cs)"
  have l: "?p = [] \<or> last ?p = CHR ''/''"
    using last_lead_segments [OF assms(2,3)] by simp
  have "ns_res (?p @ c @ ''/'') a = seg_join (ns_res ?p a) c"
    by (rule ns_res_segment [OF c l])
  also have "\<dots> = slash_join (cs @ [c])"
    using snoc.IH [OF cs] seg_join_slash_join [OF cs] by simp
  finally show ?case by simp
qed

lemma path_normalize_components:
  assumes "list_all is_component cs" and "lead = ''/'' \<or> lead = ''//''"
  shows "path_normalize (lead @ slash_join cs) = abs_path cs"
proof -
  have lead: "lead \<noteq> []" "last lead = CHR ''/''" "hd lead = CHR ''/''"
    using assms(2) by auto
  have r0: "ns_res lead False = []" using assms(2) ns_res_root [of False] by auto
  show ?thesis
  proof (cases cs rule: rev_cases)
    case Nil
    have "normalizeString lead False = []"
      using lead r0 by (simp add: normalizeString_def ns_res_def)
    then show ?thesis using Nil lead by (simp add: path_normalize_def abs_path_def)
  next
    case (snoc bs c)
    with assms(1) have bs: "list_all is_component bs" and c: "is_component c" by simp_all
    let ?p = "lead @ concat (map (\<lambda>c. c @ ''/'') bs)"
    have path: "lead @ slash_join cs = ?p @ c" by (simp add: snoc slash_join_concat)
    have l: "?p = [] \<or> last ?p = CHR ''/''"
      using last_lead_segments [OF lead(1,2)] by simp
    have "normalizeString (?p @ c) False = seg_join (ns_res ?p False) c"
      by (rule normalizeString_segment [OF c l])
    also have "\<dots> = slash_join cs"
      using ns_res_components [OF bs lead(1,2) r0] seg_join_slash_join [OF bs] snoc by simp
    finally have ns: "normalizeString (lead @ slash_join cs) False = slash_join cs"
      using path by simp
    have ne: "slash_join cs \<noteq> []" using slash_join_empty [OF assms(1)] snoc by simp
    have hd: "hd (lead @ slash_join cs) = CHR ''/''" using lead by simp
    have la: "last (lead @ slash_join cs) \<noteq> CHR ''/''"
      using component_last [OF c] path by simp
    show ?thesis
      using ns ne hd la lead(1) by (simp add: path_normalize_def Let_def abs_path_def)
  qed
qed

lemma join_fold_Some:
  "list_all (\<lambda>c. c \<noteq> []) cs \<Longrightarrow>
   foldl (\<lambda>joined arg.
            if arg \<noteq> []
            then (case joined of None \<Rightarrow> Some arg | Some j \<Rightarrow> Some (j @ ''/'' @ arg))
            else joined) (Some j) cs =
   Some (j @ concat (map (\<lambda>c. ''/'' @ c) cs))"
  by (induction cs arbitrary: j) simp_all

lemma concat_slash_prefix:
  "cs \<noteq> [] \<Longrightarrow> concat (map (\<lambda>c. ''/'' @ c) cs) = ''/'' @ slash_join cs"
  by (induction cs rule: slash_join.induct) simp_all

lemma path_join_root_components:
  assumes "list_all is_component cs"
  shows "path_join (''/'' # cs) = abs_path cs"
proof -
  have ne: "list_all (\<lambda>c. c \<noteq> []) cs"
    using assms by (induction cs) (simp_all add: is_component_def)
  have j: "join_args (''/'' # cs) = Some (''/'' @ concat (map (\<lambda>c. ''/'' @ c) cs))"
    using join_fold_Some [OF ne, of "''/''"] by (simp add: join_args_def)
  show ?thesis
  proof (cases "cs = []")
    case True
    then show ?thesis
      using j path_normalize_components [of "[]" "''/''"] by (simp add: path_join_def)
  next
    case False
    then have "concat (map (\<lambda>c. ''/'' @ c) cs) = ''/'' @ slash_join cs"
      by (rule concat_slash_prefix)
    then have "join_args (''/'' # cs) = Some (''//'' @ slash_join cs)"
      using j by simp
    then show ?thesis
      using path_normalize_components [OF assms, of "''//''"] by (simp add: path_join_def)
  qed
qed

lemma path_join_abs_path:
  assumes "list_all is_component cs"
  shows "path_join [abs_path cs, []] = abs_path cs"
proof -
  have "join_args [abs_path cs, []] = Some (abs_path cs)"
    by (simp add: join_args_pair abs_path_def)
  then show ?thesis
    using path_normalize_components [OF assms, of "''/''"]
    by (simp add: path_join_def abs_path_def)
qed

lemma split_sep_no_sep: "c \<in> set (split_sep s) \<Longrightarrow> CHR ''/'' \<notin> set c"
proof (induction s arbitrary: c)
  case Nil
  then show ?case by simp
next
  case (Cons x xs)
  show ?case
  proof (cases "x = CHR ''/''")
    case True
    with Cons show ?thesis by auto
  next
    case False
    show ?thesis
    proof (cases "split_sep xs")
      case Nil
      with Cons.prems False show ?thesis by simp
    next
      case (Cons w ws)
      with Cons.prems False have "c = x # w \<or> c \<in> set ws" by simp
      moreover have "CHR ''/'' \<notin> set w" "\<And>v. v \<in> set ws \<Longrightarrow> CHR ''/'' \<notin> set v"
        using Cons.IH Cons by simp_all
      ultimately show ?thesis using False by auto
    qed
  qed
qed

lemma map_sync_all_ok:
  assumes "\<forall>x\<in>set xs. f x = (Inr (g x), [q x])"
  shows "map_sync f xs = (Inr (map g xs), map q xs)"
  using assms by (induction xs) simp_all


lemma dirs_of_absolute:
  "compact (update_root (split_sep (CHR ''/'' # rest))) =
     ''/'' # compact (split_sep (CHR ''/'' # rest))"
  by (simp add: update_root_def compact_def)

text \<open>
  C8 as stated fails. The records carry normalized paths, so for \<^verbatim>\<open>/tmp/./x\<close>, with the
  three non-empty components \<^verbatim>\<open>tmp\<close>, \<^verbatim>\<open>.\<close> and \<^verbatim>\<open>x\<close>, the full paths are \<^verbatim>\<open>/\<close>,
  \<^verbatim>\<open>/tmp\<close>, \<^verbatim>\<open>/tmp\<close>, \<^verbatim>\<open>/tmp/x\<close> and not the prefixes of the input; and when a prefix
  does not exist, as for \<^verbatim>\<open>/tmp/x/gone\<close>, the call throws and returns no record.
\<close>

theorem subpaths_prefix_counterexample:
  "(case fst (subpaths (JString ''/tmp/./x'') example_fs) of
      Inr (Some ms) \<Rightarrow> map fullpath ms
    | _ \<Rightarrow> []) = [''/'', ''/tmp'', ''/tmp'', ''/tmp/x''] \<and>
   compact (split_sep ''/tmp/./x'') = [''tmp'', ''.'', ''x''] \<and>
   fst (subpaths (JString ''/tmp/x/gone'') example_fs) = Inl enoent"
  by code_simp

text \<open>
  C8, as the code has it. For an absolute path whose non-empty components
  \<open>c\<^sub>1, \<dots>, c\<^sub>k\<close> are none of \<^verbatim>\<open>.\<close> and \<^verbatim>\<open>..\<close>, and a filesystem in which the status
  query of the root and of every \<^verbatim>\<open>/c1/.../ci\<close> succeeds, \<open>subpaths\<close> returns \<open>k + 1\<close>
  records whose full paths are, in order, \<^verbatim>\<open>/\<close>, \<^verbatim>\<open>/c1\<close>, \<dots>, \<^verbatim>\<open>/c1/.../ck\<close>.
\<close>

theorem subpaths_fullpaths:
  assumes abs: "s \<noteq> [] \<and> hd s = CHR ''/''"
    and clean: "list_all (\<lambda>c. c \<noteq> ''.'' \<and> c \<noteq> ''..'') (compact (split_sep s))"
    and ok: "list_all (\<lambda>i. \<not> isl (lstat_of fs (abs_path (take i (compact (split_sep s))))))
               [0..<Suc (length (compact (split_sep s)))]"
  shows "\<exists>ms. fst (subpaths (JString s) fs) = Inr (Some ms) \<and>
           length ms = Suc (length (compact (split_sep s))) \<and>
           map fullpath ms =
             map (\<lambda>i. abs_path (take i (compact (split_sep s))))
               [0..<Suc (length (compact (split_sep s)))]"
proof -
  define cs where "cs = compact (split_sep s)"
  define dirs where "dirs = compact (update_root (split_sep s))"
  from abs obtain rest where s: "s = CHR ''/'' # rest" by (cases s) auto
  have dirs: "dirs = ''/'' # cs"
    unfolding dirs_def cs_def s by (rule dirs_of_absolute)
  have comp: "list_all is_component cs"
  proof -
    have "is_component c" if "c \<in> set cs" for c
    proof -
      from that have "c \<in> set (split_sep s)" "c \<noteq> []" by (simp_all add: cs_def compact_def)
      moreover from that clean have "c \<noteq> ''.'' \<and> c \<noteq> ''..''"
        by (simp add: cs_def list_all_iff)
      ultimately show ?thesis using split_sep_no_sep [of c s] by (simp add: is_component_def)
    qed
    then show ?thesis by (simp add: list_all_iff)
  qed
  define P where "P = (\<lambda>i. abs_path (take i cs))"
  define g where "g = (\<lambda>i. build_metadata (P i) [] (projr (lstat_of fs (P i))))"
  have each: "getFileMetadataSync (path_join (take (i + 1) dirs)) [] fs = (Inr (g i), [Lstat (P i)])"
    if "i \<in> set [0..<length dirs]" for i
  proof -
    have ci: "list_all is_component (take i cs)"
      using comp by (auto simp: list_all_iff dest: in_set_takeD)
    have j1: "path_join (take (i + 1) dirs) = P i"
      using path_join_root_components [OF ci] by (simp add: dirs P_def)
    have j2: "path_join [P i, []] = P i"
      using path_join_abs_path [OF ci] by (simp add: P_def)
    have okall: "\<forall>i\<in>set [0..<Suc (length cs)]. \<not> isl (lstat_of fs (P i))"
      using ok unfolding list_all_iff P_def cs_def .
    have "i \<in> set [0..<Suc (length cs)]" using that by (simp add: dirs)
    with okall have "\<not> isl (lstat_of fs (P i))" by blast
    then obtain st where st: "lstat_of fs (P i) = Inr st"
      by (cases "lstat_of fs (P i)") auto
    then have "lstat_of fs (path_join [P i, []]) = Inr st" using j2 by simp
    from sync_ok [OF this] show ?thesis using j1 j2 st by (simp add: g_def)
  qed
  have "map_sync (\<lambda>i. getFileMetadataSync (path_join (take (i + 1) dirs)) [] fs)
          [0..<length dirs] =
        (Inr (map g [0..<length dirs]), map (\<lambda>i. Lstat (P i)) [0..<length dirs])"
    by (rule map_sync_all_ok) (use each in blast)
  then have res: "fst (subpaths (JString s) fs) = Inr (Some (map g [0..<length dirs]))"
    by (simp add: subpaths_def isString_def typeof_string_def split_call_def dirs_def Let_def)
  have fp: "fullpath (g i) = P i" if "i < length dirs" for i
  proof -
    have ci: "list_all is_component (take i cs)"
      using comp by (auto simp: list_all_iff dest: in_set_takeD)
    show ?thesis using path_join_abs_path [OF ci] by (simp add: g_def build_metadata_def P_def)
  qed
  have "map fullpath (map g [0..<length dirs]) = map P [0..<length dirs]"
    using fp by simp
  with res show ?thesis
    by (intro exI [of _ "map g [0..<length dirs]"]) (simp add: dirs P_def cs_def)
qed
theorem subpaths_fullpaths_witness:
  "\<exists>ms. fst (subpaths (JString ''/a/b/c'') example_fs) = Inr (Some ms) \<and>
        length ms = 4 \<and>
        map fullpath ms = [''/'', ''/a'', ''/a/b'', ''/a/b/c'']"
proof -
  have h1: "''/a/b/c'' \<noteq> [] \<and> hd ''/a/b/c'' = CHR ''/''" by simp
  have h2: "list_all (\<lambda>c. c \<noteq> ''.'' \<and> c \<noteq> ''..'') (compact (split_sep ''/a/b/c''))"
    by code_simp
  have h3: "list_all
              (\<lambda>i. \<not> isl (lstat_of example_fs (abs_path (take i (compact (split_sep ''/a/b/c''))))))
              [0..<Suc (length (compact (split_sep ''/a/b/c'')))]"
    by code_simp
  have e1: "Suc (length (compact (split_sep ''/a/b/c''))) = 4" by code_simp
  have e2: "map (\<lambda>i. abs_path (take i (compact (split_sep ''/a/b/c'')))) [0..<4] =
            [''/'', ''/a'', ''/a/b'', ''/a/b/c'']"
    by code_simp
  from subpaths_fullpaths [OF h1 h2 h3] obtain ms where
    "fst (subpaths (JString ''/a/b/c'') example_fs) = Inr (Some ms)"
    "length ms = Suc (length (compact (split_sep ''/a/b/c'')))"
    "map fullpath ms =
       map (\<lambda>i. abs_path (take i (compact (split_sep ''/a/b/c''))))
         [0..<Suc (length (compact (split_sep ''/a/b/c'')))]"
    by blast
  then have "fst (subpaths (JString ''/a/b/c'') example_fs) = Inr (Some ms) \<and>
             length ms = 4 \<and>
             map fullpath ms = [''/'', ''/a'', ''/a/b'', ''/a/b/c'']"
    unfolding e1 e2 by (intro conjI)
  then show ?thesis by (rule exI [where x = ms])
qed

end
